theory Spec2Isabelle
  imports Main "HOL-Library.AList"
begin

section \<open>Data model of \<open>src/index.ts\<close>\<close>

text \<open>
  \<open>src/index.ts\<close> holds two variants of the engine. The development follows the one
  that the specification names: the class \<open>Pages\<close> with the methods \<open>add\<close> (the parser)
  and \<open>build\<close> (the resolver), the function \<open>tokenize\<close> and the error constructors
  \<open>parseError\<close> and \<open>buildError\<close>.

  \<open>val\<close>: the JavaScript values of type \<open>any\<close>, which the engine itself only tests for
  truthiness. The parser produces \<open>true\<close> (flags) and strings (literals); everything else
  can only come from a decorator or macro implementation. \<open>VOther\<close> stands for any
  object, array or function (always truthy); numbers are integers here.
\<close>

datatype val = VUndefined | VNull | VBool bool | VNum int | VStr string | VOther nat

fun truthy :: "val \<Rightarrow> bool" where
  "truthy VUndefined = False"
| "truthy VNull = False"
| "truthy (VBool b) = b"
| "truthy (VNum n) = (n \<noteq> 0)"
| "truthy (VStr s) = (s \<noteq> [])"
| "truthy (VOther _) = True"

text \<open>
  \<open>type Props = {[name:string]:any}\<close>: a plain object used as a dictionary. Keys keep
  their insertion order, an assignment to a present key replaces the value in place.
  Reading an absent key gives \<open>undefined\<close>. An assignment \<open>o['__proto__'] = v\<close> with a
  primitive \<open>v\<close> goes to the setter inherited from \<open>Object.prototype\<close> and stores
  nothing.
\<close>

type_synonym Props = "(string \<times> val) list"

definition get_prop :: "Props \<Rightarrow> string \<Rightarrow> val" where
  "get_prop ps k = (case map_of ps k of None \<Rightarrow> VUndefined | Some v \<Rightarrow> v)"

definition set_prop :: "string \<Rightarrow> val \<Rightarrow> Props \<Rightarrow> Props" where
  "set_prop k v ps = (if k = ''__proto__'' then ps else AList.update k v ps)"

record Source =
  s_name :: string
  body :: string

record Loc =
  src :: Source
  col :: int
  row :: int
  len :: int

text \<open>
  \<open>type Dec\<close>. A decorator is a heap object: the parser puts references to one object
  into several arrays, and \<open>build\<close> finds a macro again with \<open>indexOf\<close>, which compares
  references. \<open>ident\<close> is the identity of the object, its allocation number. A \<open>Dec\<close>
  is mutated only before it is put into a page's list (flags and parameters while it is
  declared, the negation of a stub before the splice), so the fields travel with the
  reference.
\<close>

record Dec =
  ident :: nat
  d_loc :: Loc
  d_name :: string
  d_props :: Props
  d_args :: "val list"

record Page =
  p_loc :: Loc
  p_name :: string
  p_path :: "string option"
  p_props :: Props
  decorators :: "Dec list"

record Namespace =
  n_loc :: Loc
  n_name :: string
  n_props :: Props
  pages :: "Page list"

datatype js_error =
    SyntaxError Loc string string
  | EvalError Loc string
  | RangeError
  | TypeError

section \<open>Arrays\<close>

text \<open>\<open>a[i]\<close>: \<open>None\<close> is \<open>undefined\<close>, whose property reads raise a \<open>TypeError\<close>.\<close>

definition at :: "'a list \<Rightarrow> int \<Rightarrow> 'a option" where
  "at xs i = (if 0 \<le> i \<and> i < int (length xs) then Some (xs ! nat i) else None)"

text \<open>
  \<open>Array.prototype.splice(start, deleteCount, ...items)\<close>: a negative \<open>start\<close> counts
  from the end, and both bounds are clamped to the array.
\<close>

definition splice :: "int \<Rightarrow> nat \<Rightarrow> 'a list \<Rightarrow> 'a list \<Rightarrow> 'a list" where
  "splice start deleteCount items xs =
     (let n = int (length xs);
          s = nat (if start < 0 then max (n + start) 0 else min start n)
      in take s xs @ items @ drop (s + deleteCount) xs)"

section \<open>Source text and tokens\<close>

text \<open>
  A \<open>char\<close> is a UTF-16 code unit below 256. \<open>new Source(name, body)\<close> replaces every
  \<open>\r\n\<close> by \<open>\n\<close>.
\<close>

definition LF :: char where "LF = CHR 0x0A"
definition CR :: char where "CR = CHR 0x0D"

fun crlf :: "string \<Rightarrow> string" where
  "crlf (a # b # cs) = (if a = CR \<and> b = LF then LF # crlf cs else a # crlf (b # cs))"
| "crlf cs = cs"

definition new_Source :: "string \<Rightarrow> string \<Rightarrow> Source" where
  "new_Source name content = \<lparr>s_name = name, body = crlf content\<rparr>"

text \<open>\<open>eof\<close> is \<open>token instanceof EOF\<close>.\<close>

record Token =
  t_val :: string
  t_loc :: Loc
  eof :: bool

definition new_Token :: "int \<Rightarrow> int \<Rightarrow> string \<Rightarrow> Source \<Rightarrow> Token" where
  "new_Token c r v source =
     \<lparr>t_val = v, t_loc = \<lparr>src = source, col = c, row = r, len = int (length v)\<rparr>, eof = False\<rparr>"

definition new_EOF :: "int \<Rightarrow> int \<Rightarrow> Source \<Rightarrow> Token" where
  "new_EOF c r source = (new_Token c r '' '' source)\<lparr>eof := True\<rparr>"

definition startsWith :: "char \<Rightarrow> string \<Rightarrow> bool" where
  "startsWith c v = (case v of [] \<Rightarrow> False | x # _ \<Rightarrow> x = c)"

definition endsWith :: "char \<Rightarrow> string \<Rightarrow> bool" where
  "endsWith c v = (v \<noteq> [] \<and> last v = c)"

text \<open>\<open>v.slice(1,-1)\<close>\<close>

definition slice1 :: "string \<Rightarrow> string" where
  "slice1 v = butlast (tl v)"

definition isNamespace :: "Token \<Rightarrow> bool" where
  "isNamespace tk = (startsWith (CHR ''('') (t_val tk) \<and> endsWith (CHR '')'') (t_val tk))"

definition isPage :: "Token \<Rightarrow> bool" where
  "isPage tk = (startsWith (CHR ''['') (t_val tk) \<and> endsWith (CHR '']'') (t_val tk))"

definition isString :: "Token \<Rightarrow> bool" where
  "isString tk = (startsWith (CHR 0x22) (t_val tk) \<and> endsWith (CHR 0x22) (t_val tk))"

text \<open>\<open>/^#?[a-z0-9_\-]+$/i\<close>\<close>

definition identifier_char :: "char \<Rightarrow> bool" where
  "identifier_char c =
     (c \<in> set (''abcdefghijklmnopqrstuvwxyz'' @ ''ABCDEFGHIJKLMNOPQRSTUVWXYZ'' @ ''0123456789'' @ ''_-''))"

definition isIdentifier :: "Token \<Rightarrow> bool" where
  "isIdentifier tk =
     (let w = (case t_val tk of [] \<Rightarrow> [] | c # cs \<Rightarrow> if c = CHR ''#'' then cs else c # cs)
      in w \<noteq> [] \<and> list_all identifier_char w)"

text \<open>\<open>/[!=\-!@%{}<>]/\<close> and \<open>/\s/\<close> (on code units below 256)\<close>

definition is_operator :: "char \<Rightarrow> bool" where
  "is_operator c = (c \<in> set ''!=-@%{}<>'')"

definition is_space :: "char \<Rightarrow> bool" where
  "is_space c = (c \<in> {CHR 0x09, CHR 0x0A, CHR 0x0B, CHR 0x0C, CHR 0x0D, CHR 0x20, CHR 0xA0})"

section \<open>\<open>parseError\<close> and \<open>buildError\<close>\<close>

text \<open>\<open>body.split(/\n/g)\<close>\<close>

fun split_lines :: "string \<Rightarrow> string list" where
  "split_lines [] = [[]]"
| "split_lines (c # cs) =
     (if c = LF then [] # split_lines cs
      else (case split_lines cs of [] \<Rightarrow> [[c]] | l # ls \<Rightarrow> (c # l) # ls))"

text \<open>\<open>trueline.replace(/^\s+/g,'').replace(/\s+$/g,'')\<close>\<close>

definition trim :: "string \<Rightarrow> string" where
  "trim trueline = rev (dropWhile is_space (rev (dropWhile is_space trueline)))"

text \<open>
  Both constructors format the message before they build the error object: the source
  line \<open>loc.row\<close> is looked up (a row outside the text gives \<open>undefined\<close>, and
  \<open>undefined.replace\<close> raises a \<open>TypeError\<close>), and \<open>' '.repeat(col)\<close> and
  \<open>'^'.repeat(loc.len)\<close> raise a \<open>RangeError\<close> on a negative count. The error value
  keeps the location and the message, not the formatted text.
\<close>

definition parseError :: "Loc \<Rightarrow> string \<Rightarrow> string \<Rightarrow> js_error" where
  "parseError loc message hint =
     (case at (split_lines (body (src loc))) (row loc) of
        None \<Rightarrow> TypeError
      | Some trueline \<Rightarrow>
          let line = trim trueline;
              c = col loc - int (length trueline) + int (length line)
          in if c < 0 \<or> len loc < 0 then RangeError else SyntaxError loc message hint)"

definition buildError :: "Loc \<Rightarrow> string \<Rightarrow> js_error" where
  "buildError loc message =
     (case at (split_lines (body (src loc))) (row loc) of
        None \<Rightarrow> TypeError
      | Some trueline \<Rightarrow>
          let line = trim trueline;
              c = col loc - int (length trueline) + int (length line)
          in if c < 0 \<or> len loc < 0 then RangeError else EvalError loc message)"

section \<open>\<open>tokenize\<close>\<close>

text \<open>The local variables \<open>tokens\<close>, \<open>t\<close>, \<open>col\<close> and \<open>row\<close> of \<open>tokenize\<close>.\<close>

record TState =
  tokens :: "Token list"
  buf :: string
  cur_col :: int
  cur_row :: int

definition pushtk :: "Source \<Rightarrow> string \<Rightarrow> TState \<Rightarrow> TState" where
  "pushtk source tk s =
     s\<lparr>tokens := tokens s @ [new_Token (cur_col s - max 0 (int (length tk) - 1)) (cur_row s) tk source]\<rparr>"

definition pushtoken :: "Source \<Rightarrow> string \<Rightarrow> TState \<Rightarrow> TState" where
  "pushtoken source tt s = (if buf s \<noteq> [] then pushtk source (buf s @ tt) s else s)\<lparr>buf := []\<rparr>"

text \<open>One iteration of the loop over the characters of \<open>source.body\<close>.\<close>

definition scan :: "Source \<Rightarrow> TState \<Rightarrow> char \<Rightarrow> TState" where
  "scan source s chr =
     (let s1 =
        (if startsWith (CHR 0x22) (buf s) then
           (if chr = CHR 0x22 then pushtoken source [chr] s else s\<lparr>buf := buf s @ [chr]\<rparr>)
         else if startsWith (CHR ''['') (buf s) then
           (if chr = CHR '']'' then pushtoken source [chr] s else s\<lparr>buf := buf s @ [chr]\<rparr>)
         else if startsWith (CHR ''('') (buf s) then
           (if chr = CHR '')'' then pushtoken source [chr] s else s\<lparr>buf := buf s @ [chr]\<rparr>)
         else if is_operator chr then pushtk source [chr] (pushtoken source [] s)
         else if is_space chr then
           (let s' = pushtoken source [] (s\<lparr>cur_col := cur_col s - 1\<rparr>)
            in s'\<lparr>cur_col := cur_col s' + 1\<rparr>)
         else s\<lparr>buf := buf s @ [chr]\<rparr>)
      in if chr = LF then s1\<lparr>cur_col := 0, cur_row := cur_row s1 + 1\<rparr>
         else s1\<lparr>cur_col := cur_col s1 + 1\<rparr>)"

definition tokenize :: "Source \<Rightarrow> Token list" where
  "tokenize source =
     (let s = foldl (scan source) \<lparr>tokens = [], buf = [], cur_col = 0, cur_row = 0\<rparr> (body source);
          s' = pushtoken source [] s
      in tokens s' @ [new_EOF (cur_col s') (cur_row s') source])"

section \<open>The parser: \<open>Pages.add\<close>\<close>

datatype ParseState = Top | NamespaceBody | PageBody

text \<open>
  The state of the loop of \<open>add\<close>: the local variables \<open>state\<close>, \<open>i\<close>, \<open>decs\<close>,
  \<open>groupDecs\<close> and \<open>globDecs\<close>, the field \<open>this.namespaces\<close> (\<open>nss\<close>) and the number of
  the next \<open>Dec\<close> object (\<open>fresh\<close>). The variable \<open>namespace\<close> refers to the namespace
  pushed last and \<open>page\<close> to the page pushed last into it; they are \<open>null\<close> where the
  lists are empty.
\<close>

record PState =
  pstate :: ParseState
  idx :: nat
  decs :: "Dec list"
  groupDecs :: "Dec list"
  globDecs :: "Dec list"
  nss :: "Namespace list"
  fresh :: nat

datatype 'a flow = Next 'a | Break 'a

definition upd_last :: "('a \<Rightarrow> 'a) \<Rightarrow> 'a list \<Rightarrow> 'a list" where
  "upd_last f xs = (case rev xs of [] \<Rightarrow> [] | x # r \<Rightarrow> rev r @ [f x])"

text \<open>\<open>tokens[k]\<close> followed by a property read.\<close>

definition tok :: "Token list \<Rightarrow> nat \<Rightarrow> js_error + Token" where
  "tok toks k = (if k < length toks then Inr (toks ! k) else Inl TypeError)"

definition resolveValue :: "Token \<Rightarrow> js_error + val" where
  "resolveValue token =
     (if eof token then Inl (parseError (t_loc token) ''Expected an expression'' [])
      else if isString token then Inr (VStr (slice1 (t_val token)))
      else if isIdentifier token then Inl (parseError (t_loc token) ''Variables are not supported yet'' [])
      else Inl (parseError (t_loc token) ''Invalid value'' []))"

subsection \<open>State \<open>Top\<close>\<close>

definition top_step :: "Props option \<Rightarrow> Token list \<Rightarrow> PState \<Rightarrow> Token \<Rightarrow> js_error + PState flow" where
  "top_step props toks s token =
     (if isNamespace token then
        (let name = slice1 (t_val token) in
         if name = [] then Inl (parseError (t_loc token) ''Missing namespace name'' [])
         else (case tok toks (idx s + 1) of
                 Inl e \<Rightarrow> Inl e
               | Inr nxt \<Rightarrow>
                   if t_val nxt \<noteq> ''{'' then Inl (parseError (t_loc nxt) ''Expected `{`'' [])
                   else Inr (Next (s\<lparr>idx := idx s + 1, pstate := NamespaceBody,
                          nss := nss s @ [\<lparr>n_loc = t_loc token, n_name = name,
                                           n_props = (case props of None \<Rightarrow> [] | Some ps \<Rightarrow> ps),
                                           pages = []\<rparr>]\<rparr>))))
      else if eof token then Inr (Break s)
      else Inl (parseError (t_loc token) ''Expected a namespace declaration''
                  (if isIdentifier token then ''Maybe you meant `('' @ t_val token @ '')`?'' else [])))"

subsection \<open>State \<open>Namespace\<close>\<close>

text \<open>\<open>}\<close>: closes the group if the group buffer is not empty, the namespace otherwise.\<close>

definition close_brace :: "PState \<Rightarrow> PState" where
  "close_brace s = (if groupDecs s \<noteq> [] then s\<lparr>groupDecs := []\<rparr> else s\<lparr>pstate := Top\<rparr>)"

text \<open>\<open>name = value\<close> in a namespace.\<close>

definition namespace_prop :: "Token list \<Rightarrow> PState \<Rightarrow> Token \<Rightarrow> js_error + PState" where
  "namespace_prop toks s token =
     (case tok toks (idx s + 1) of
        Inl e \<Rightarrow> Inl e
      | Inr eq \<Rightarrow>
          if t_val eq \<noteq> ''='' then Inl (parseError (t_loc eq) ''Expected `=`'' [])
          else (case tok toks (idx s + 2) of
                  Inl e \<Rightarrow> Inl e
                | Inr v \<Rightarrow>
                    (case resolveValue v of
                       Inl e \<Rightarrow> Inl e
                     | Inr x \<Rightarrow>
                         Inr (s\<lparr>idx := idx s + 2,
                                nss := upd_last (\<lambda>n. n\<lparr>n_props := set_prop (t_val token) x (n_props n)\<rparr>) (nss s)\<rparr>))))"

text \<open>\<open>[name] {\<close>: a page is created from the three buffers.\<close>

definition open_page :: "Token list \<Rightarrow> PState \<Rightarrow> Token \<Rightarrow> js_error + PState" where
  "open_page toks s token =
     (let name = slice1 (t_val token) in
      case tok toks (idx s + 1) of
        Inl e \<Rightarrow> Inl e
      | Inr nxt \<Rightarrow>
          if t_val nxt \<noteq> ''{'' then Inl (parseError (t_loc nxt) ''Expected `{`'' [])
          else
            (let page = \<lparr>p_loc = t_loc token, p_name = name, p_path = None, p_props = [],
                         decorators = globDecs s @ groupDecs s @ decs s\<rparr>
             in Inr (s\<lparr>idx := idx s + 1, pstate := PageBody,
                      nss := upd_last (\<lambda>n. n\<lparr>pages := pages n @ [page]\<rparr>) (nss s),
                      decs := []\<rparr>)))"

text \<open>
  The parameter list \<open><\<dots>>\<close> of a declaration: the loop
  \<open>while (tokens[++i].val != '>')\<close>, entered with the incremented index \<open>k\<close>. It returns
  the index of the \<open>>\<close>.
\<close>

function params :: "Token list \<Rightarrow> nat \<Rightarrow> Dec \<Rightarrow> js_error + nat \<times> Dec" where
  "params toks k dec =
     (case tok toks k of
        Inl e \<Rightarrow> Inl e
      | Inr a \<Rightarrow>
          if t_val a = ''>'' then Inr (k, dec)
          else if isIdentifier a then
            (case tok toks (k + 1) of
               Inl e \<Rightarrow> Inl e
             | Inr eq \<Rightarrow>
                 if t_val eq \<noteq> ''='' then Inl (parseError (t_loc eq) ''Expected `=`'' [])
                 else (case tok toks (k + 2) of
                         Inl e \<Rightarrow> Inl e
                       | Inr v \<Rightarrow>
                           (case resolveValue v of
                              Inl e \<Rightarrow> Inl e
                            | Inr x \<Rightarrow>
                                params toks (k + 3)
                                  (dec\<lparr>d_props := set_prop (t_val a) x (d_props dec)\<rparr>))))
          else (case resolveValue a of
                  Inl e \<Rightarrow> Inl e
                | Inr x \<Rightarrow> params toks (k + 1) (dec\<lparr>d_args := d_args dec @ [x]\<rparr>)))"
  by pat_completeness auto
termination
  by (relation "measure (\<lambda>(toks, k, dec). length toks - k)")
     (auto simp: tok_def split: if_splits)

declare params.simps [simp del]

text \<open>
  \<open>%\<close>: a declaration. \<open>marker m\<close> is one of the three optional markers,
  \<open>if (tokens[i].val == m) { flag = true; i++; }\<close>: it returns the flag and the index.
\<close>

definition marker :: "string \<Rightarrow> Token list \<Rightarrow> nat \<Rightarrow> js_error + bool \<times> nat" where
  "marker m toks k =
     (case tok toks k of
        Inl e \<Rightarrow> Inl e
      | Inr t \<Rightarrow> if t_val t = m then Inr (True, k + 1) else Inr (False, k))"

text \<open>The new object with its flags, set in the order \<open>__not\<close>, \<open>__mac\<close>, \<open>__glb\<close>.\<close>

definition flag :: "bool \<Rightarrow> string \<Rightarrow> Dec \<Rightarrow> Dec" where
  "flag b k dec = (if b then dec\<lparr>d_props := set_prop k (VBool True) (d_props dec)\<rparr> else dec)"

definition new_Dec :: "nat \<Rightarrow> Loc \<Rightarrow> string \<Rightarrow> bool \<Rightarrow> bool \<Rightarrow> bool \<Rightarrow> Dec" where
  "new_Dec n loc name neg mac glb =
     flag glb ''__glb'' (flag mac ''__mac'' (flag neg ''__not''
       \<lparr>ident = n, d_loc = loc, d_name = name, d_props = [], d_args = []\<rparr>))"

text \<open>
  The source pushes the new object into its buffer and then sets the flags and the
  parameters through the reference; the buffers are read only when a later token opens
  a page or a group, so the object is pushed here once it is complete. \<open>k\<close> is the index
  the loop of \<open>add\<close> continues from.
\<close>

definition push_dec :: "bool \<Rightarrow> Dec \<Rightarrow> nat \<Rightarrow> PState \<Rightarrow> PState" where
  "push_dec glb dec k s =
     (if glb then s\<lparr>idx := k, globDecs := globDecs s @ [dec], fresh := fresh s + 1\<rparr>
      else s\<lparr>idx := k, decs := decs s @ [dec], fresh := fresh s + 1\<rparr>)"

definition dec_declaration :: "Token list \<Rightarrow> PState \<Rightarrow> Token \<Rightarrow> js_error + PState" where
  "dec_declaration toks s token =
     (case marker ''%'' toks (idx s + 1) of Inl e \<Rightarrow> Inl e | Inr (glb, i2) \<Rightarrow>
      case marker ''-'' toks i2 of Inl e \<Rightarrow> Inl e | Inr (neg, i3) \<Rightarrow>
      case marker ''!'' toks i3 of Inl e \<Rightarrow> Inl e | Inr (mac, i4) \<Rightarrow>
      case tok toks i4 of Inl e \<Rightarrow> Inl e | Inr t4 \<Rightarrow>
      if \<not> isIdentifier t4 then Inl (parseError (t_loc t4) ''Expected an identifier'' [])
      else
        let dec = new_Dec (fresh s) (t_loc token) (t_val t4) neg mac glb
        in case tok toks (i4 + 1) of Inl e \<Rightarrow> Inl e | Inr t5 \<Rightarrow>
           if t_val t5 = ''<'' then
             (if neg then Inl (parseError (t_loc t5) ''Can't add parameters to cancelled decorator'' [])
              else (case params toks (i4 + 2) dec of
                      Inl e \<Rightarrow> Inl e
                    | Inr (k, dec') \<Rightarrow> Inr (push_dec glb dec' k s)))
           else Inr (push_dec glb dec i4 s))"

text \<open>\<open>{\<close>: the local buffer becomes the group buffer.\<close>

definition open_group :: "PState \<Rightarrow> Token \<Rightarrow> js_error + PState" where
  "open_group s token =
     (if decs s = [] then Inl (parseError (t_loc token) ''Expected decorators before group'' [])
      else Inr (s\<lparr>groupDecs := decs s, decs := []\<rparr>))"

definition namespace_step :: "Token list \<Rightarrow> PState \<Rightarrow> Token \<Rightarrow> js_error + PState" where
  "namespace_step toks s token =
     (if nss s = [] then Inl (parseError (t_loc token) ''<INVALID STATE>'' [])
      else if t_val token = ''}'' then Inr (close_brace s)
      else if isIdentifier token then namespace_prop toks s token
      else if isPage token then open_page toks s token
      else if t_val token = ''%'' then dec_declaration toks s token
      else if t_val token = ''{'' then open_group s token
      else if isNamespace token then Inl (parseError (t_loc token) ''Unexpected namespace declaration'' [])
      else if eof token then Inl (parseError (t_loc token) ''Unexpected EOF'' [])
      else Inl (parseError (t_loc token) ''Unexpected token'' []))"

subsection \<open>State \<open>Page\<close>\<close>

definition upd_page :: "(Page \<Rightarrow> Page) \<Rightarrow> Namespace list \<Rightarrow> Namespace list" where
  "upd_page f = upd_last (\<lambda>n. n\<lparr>pages := upd_last f (pages n)\<rparr>)"

definition page_prop :: "Token list \<Rightarrow> PState \<Rightarrow> Token \<Rightarrow> js_error + PState" where
  "page_prop toks s token =
     (case tok toks (idx s + 1) of
        Inl e \<Rightarrow> Inl e
      | Inr eq \<Rightarrow>
          if t_val eq \<noteq> ''='' then Inl (parseError (t_loc eq) ''Expected `=`'' [])
          else (case tok toks (idx s + 2) of
                  Inl e \<Rightarrow> Inl e
                | Inr v \<Rightarrow>
                    (case resolveValue v of
                       Inl e \<Rightarrow> Inl e
                     | Inr x \<Rightarrow>
                         Inr (s\<lparr>idx := idx s + 2,
                                nss := upd_page (\<lambda>p. p\<lparr>p_props := set_prop (t_val token) x (p_props p)\<rparr>) (nss s)\<rparr>))))"

definition page_path :: "Token list \<Rightarrow> PState \<Rightarrow> js_error + PState" where
  "page_path toks s =
     (case tok toks (idx s + 1) of
        Inl e \<Rightarrow> Inl e
      | Inr v \<Rightarrow>
          if \<not> isString v then Inl (parseError (t_loc v) ''Expected a string for page path'' [])
          else Inr (s\<lparr>idx := idx s + 1,
                     nss := upd_page (\<lambda>p. p\<lparr>p_path := Some (slice1 (t_val v))\<rparr>) (nss s)\<rparr>))"

definition page_step :: "Token list \<Rightarrow> PState \<Rightarrow> Token \<Rightarrow> js_error + PState" where
  "page_step toks s token =
     (if nss s = [] \<or> pages (last (nss s)) = [] then Inl (parseError (t_loc token) ''<INVALID STATE>'' [])
      else if t_val token = ''}'' then Inr (s\<lparr>pstate := NamespaceBody\<rparr>)
      else if isIdentifier token then page_prop toks s token
      else if t_val token = ''@'' then page_path toks s
      else if isNamespace token then Inl (parseError (t_loc token) ''Unexpected namespace declaration'' [])
      else if isPage token then Inl (parseError (t_loc token) ''Unexpected page declaration'' [])
      else Inl (parseError (t_loc token) ''Unexpected token'' []))"

subsection \<open>The loop\<close>

definition step :: "Props option \<Rightarrow> Token list \<Rightarrow> PState \<Rightarrow> Token \<Rightarrow> js_error + PState flow" where
  "step props toks s token =
     (case pstate s of
        Top \<Rightarrow> top_step props toks s token
      | NamespaceBody \<Rightarrow> map_sum id Next (namespace_step toks s token)
      | PageBody \<Rightarrow> map_sum id Next (page_step toks s token))"

text \<open>No branch moves the index backwards, so the loop ends.\<close>

lemma params_idx: "params toks k dec = Inr (j, d) \<Longrightarrow> k \<le> j"
proof (induction toks k dec arbitrary: j d rule: params.induct)
  case (1 toks k dec)
  show ?case
  proof (cases "tok toks k")
    case (Inl e)
    with "1.prems" show ?thesis by (subst (asm) params.simps) simp
  next
    case (Inr a)
    show ?thesis
    proof (cases "t_val a = ''>''")
      case True
      with Inr "1.prems" show ?thesis by (subst (asm) params.simps) simp
    next
      case False
      note nogt = this
      show ?thesis
      proof (cases "isIdentifier a")
        case True
        from "1.prems" Inr nogt True obtain eq v x where
          eq: "tok toks (k + 1) = Inr eq" "\<not> t_val eq \<noteq> ''=''" and
          v: "tok toks (k + 2) = Inr v" "resolveValue v = Inr x" and
          rec: "params toks (k + 3) (dec\<lparr>d_props := set_prop (t_val a) x (d_props dec)\<rparr>) = Inr (j, d)"
          by (subst (asm) params.simps) (auto split: sum.splits if_splits)
        from "1.IH"(1)[OF Inr nogt True eq v rec] show ?thesis by simp
      next
        case False
        from "1.prems" Inr nogt False obtain x where
          v: "resolveValue a = Inr x" and
          rec: "params toks (k + 1) (dec\<lparr>d_args := d_args dec @ [x]\<rparr>) = Inr (j, d)"
          by (subst (asm) params.simps) (auto split: sum.splits if_splits)
        from "1.IH"(2)[OF Inr nogt False v rec] show ?thesis by simp
      qed
    qed
  qed
qed

lemma marker_idx: "marker m toks k = Inr (b, k') \<Longrightarrow> k \<le> k'"
  by (auto simp: marker_def split: sum.splits if_splits)

lemma push_dec_idx [simp]: "idx (push_dec glb dec k s) = k"
  by (simp add: push_dec_def)

lemma dec_declaration_idx:
  assumes "dec_declaration toks s token = Inr s'"
  shows "idx s \<le> idx s'"
proof -
  from assms obtain glb i2 neg i3 mac i4 where
    m1: "marker ''%'' toks (idx s + 1) = Inr (glb, i2)" and
    m2: "marker ''-'' toks i2 = Inr (neg, i3)" and
    m3: "marker ''!'' toks i3 = Inr (mac, i4)"
    unfolding dec_declaration_def by (auto split: sum.splits)
  have le: "idx s \<le> i4"
    using marker_idx[OF m1] marker_idx[OF m2] marker_idx[OF m3] by simp
  from assms have "idx s' = i4 \<or> (\<exists>dec d. params toks (i4 + 2) dec = Inr (idx s', d))"
    using m1 m2 m3 by (auto simp: dec_declaration_def Let_def split: sum.splits if_splits)
  then show ?thesis using le by (auto dest: params_idx)
qed

lemma namespace_step_idx: "namespace_step toks s token = Inr s' \<Longrightarrow> idx s \<le> idx s'"
  unfolding namespace_step_def
  by (auto simp: close_brace_def namespace_prop_def open_page_def open_group_def Let_def
           split: sum.splits if_splits dest: dec_declaration_idx)

lemma page_step_idx: "page_step toks s token = Inr s' \<Longrightarrow> idx s \<le> idx s'"
  unfolding page_step_def
  by (auto simp: page_prop_def page_path_def split: sum.splits if_splits)

lemma top_step_idx: "top_step props toks s token = Inr (Next s') \<Longrightarrow> idx s \<le> idx s'"
  unfolding top_step_def Let_def
  by (auto split: sum.splits if_splits)

lemma step_idx: "step props toks s token = Inr (Next s') \<Longrightarrow> idx s \<le> idx s'"
  unfolding step_def
  by (cases "pstate s"; cases "namespace_step toks s token"; cases "page_step toks s token")
     (auto dest: top_step_idx namespace_step_idx page_step_idx)

text \<open>
  The loop \<open>for (let i = 0; i < tokens.length; i++)\<close>, entered with the current state.
  A throw leaves \<open>this.namespaces\<close> as it was when the token was read: every branch
  checks before it assigns.
\<close>

function parse_loop :: "Props option \<Rightarrow> Token list \<Rightarrow> PState \<Rightarrow> js_error \<times> PState + PState" where
  "parse_loop props toks s =
     (if idx s < length toks then
        (case step props toks s (toks ! idx s) of
           Inl e \<Rightarrow> Inl (e, s)
         | Inr (Break s') \<Rightarrow> Inr s'
         | Inr (Next s') \<Rightarrow> parse_loop props toks (s'\<lparr>idx := idx s' + 1\<rparr>))
      else Inr s)"
  by pat_completeness auto
termination
  by (relation "measure (\<lambda>(props, toks, s). length toks - idx s)")
     (auto dest: step_idx)

declare parse_loop.simps [simp del]

text \<open>The state in which the loop ends, whether it returns or throws.\<close>

definition final :: "js_error \<times> PState + PState \<Rightarrow> PState" where
  "final r = (case r of Inl (e, s) \<Rightarrow> s | Inr s \<Rightarrow> s)"

subsection \<open>The object \<open>Pages\<close> and the method\<close>

text \<open>
  An implementation of a decorator receives the page and the decorator and works by
  mutation of \<open>page.props\<close>: it is the function from the page and the decorator to the
  new properties. An implementation of a macro returns new stub objects; their \<open>ident\<close>
  is given to them when they are allocated (\<open>alloc\<close> below).
\<close>

type_synonym DecImpl = "Page \<Rightarrow> Dec \<Rightarrow> Props"
type_synonym MacImpl = "Page \<Rightarrow> Dec \<Rightarrow> Dec list"

text \<open>
  The object \<open>Pages\<close>: \<open>namespaces\<close>, the two registries \<open>decorators\<close> and \<open>macros\<close>, and
  the number of the next \<open>Dec\<close> object. A registry is a plain object: the map holds its
  own properties (those that \<open>use\<close> assigns), and the constructor leaves it without any.
\<close>

record Pages =
  namespaces :: "Namespace list"
  decorator_impls :: "string \<rightharpoonup> DecImpl"
  macro_impls :: "string \<rightharpoonup> MacImpl"
  next_ident :: nat

definition new_Pages :: Pages where
  "new_Pages = \<lparr>namespaces = [], decorator_impls = Map.empty, macro_impls = Map.empty, next_ident = 0\<rparr>"

text \<open>
  A lookup \<open>registry[name]\<close> that finds no own property goes on to \<open>Object.prototype\<close>, from
  which the object literal \<open>{}\<close> inherits. These are the properties there (all their names
  are identifiers of this language), with what the value does that the lookup finds when
  the code calls it as \<open>impl(page,dec)\<close>, a call without receiver:
  \<^item> \<open>toString\<close> returns the string \<^verbatim>\<open>[object Undefined]\<close>;
  \<^item> \<open>constructor\<close> is \<open>Object\<close> and returns its first argument, the page;
  \<^item> \<open>valueOf\<close>, \<open>hasOwnProperty\<close>, \<open>isPrototypeOf\<close>, \<open>propertyIsEnumerable\<close>,
    \<open>toLocaleString\<close> and the four \<open>__defineGetter__\<close>, \<open>__defineSetter__\<close>,
    \<open>__lookupGetter__\<close>, \<open>__lookupSetter__\<close> convert the receiver \<open>undefined\<close> to an object,
    which throws a \<open>TypeError\<close>; \<open>__proto__\<close> yields \<open>Object.prototype\<close> itself, which is
    not a function, and the call throws a \<open>TypeError\<close>.
\<close>

datatype inherited = Returns_String | Returns_Page | Fails

definition Object_prototype :: "string \<rightharpoonup> inherited" where
  "Object_prototype = map_of
     [(''toString'', Returns_String), (''constructor'', Returns_Page),
      (''valueOf'', Fails), (''hasOwnProperty'', Fails), (''isPrototypeOf'', Fails),
      (''propertyIsEnumerable'', Fails), (''toLocaleString'', Fails),
      (''__defineGetter__'', Fails), (''__defineSetter__'', Fails),
      (''__lookupGetter__'', Fails), (''__lookupSetter__'', Fails), (''__proto__'', Fails)]"

text \<open>The value of \<open>registry[name]\<close>: an own property, an inherited one, or \<open>undefined\<close>.\<close>

datatype 'a property = Own 'a | Inherited inherited | Absent

definition lookup :: "(string \<rightharpoonup> 'a) \<Rightarrow> string \<Rightarrow> 'a property" where
  "lookup registry name =
     (case registry name of
        Some impl \<Rightarrow> Own impl
      | None \<Rightarrow> (case Object_prototype name of Some v \<Rightarrow> Inherited v | None \<Rightarrow> Absent))"

text \<open>A call that returns, or throws and leaves the object in the given state.\<close>

datatype 'a outcome = Return 'a | Throw js_error 'a

text \<open>The state after the call, whether it returned or threw.\<close>

definition after :: "'a outcome \<Rightarrow> 'a" where
  "after r = (case r of Return s \<Rightarrow> s | Throw e s \<Rightarrow> s)"

text \<open>The body of \<open>add\<close> after \<open>const tokens = tokenize(source)\<close>.\<close>

definition parse :: "Props option \<Rightarrow> Token list \<Rightarrow> Pages \<Rightarrow> Pages outcome" where
  "parse props toks this =
     (let s0 = \<lparr>pstate = Top, idx = 0, decs = [], groupDecs = [], globDecs = [],
                nss = namespaces this, fresh = next_ident this\<rparr>
      in case parse_loop props toks s0 of
           Inl (e, s) \<Rightarrow> Throw e (this\<lparr>namespaces := nss s, next_ident := fresh s\<rparr>)
         | Inr s \<Rightarrow> Return (this\<lparr>namespaces := nss s, next_ident := fresh s\<rparr>))"

definition add :: "Source \<Rightarrow> Props option \<Rightarrow> Pages \<Rightarrow> Pages outcome" where
  "add source props this = parse props (tokenize source) this"

definition addText :: "string \<Rightarrow> string option \<Rightarrow> Props option \<Rightarrow> Pages \<Rightarrow> Pages outcome" where
  "addText content name props this =
     add (new_Source (case name of None \<Rightarrow> ''(input)'' | Some [] \<Rightarrow> ''(input)'' | Some n \<Rightarrow> n) content) props this"

text \<open>
  \<open>use(lib)\<close>: \<open>Object.assign\<close> on each registry that the library has. The properties of
  the library become own properties of the registry. (An own property \<open>__proto__\<close> of
  a library would replace the prototype of the registry; such libraries are left out.)
\<close>

definition use :: "(string \<rightharpoonup> DecImpl) option \<times> (string \<rightharpoonup> MacImpl) option \<Rightarrow> Pages \<Rightarrow> Pages" where
  "use lib this =
     this\<lparr>decorator_impls := (case fst lib of None \<Rightarrow> decorator_impls this | Some d \<Rightarrow> decorator_impls this ++ d),
          macro_impls := (case snd lib of None \<Rightarrow> macro_impls this | Some m \<Rightarrow> macro_impls this ++ m)\<rparr>"

section \<open>Resolution: \<open>Pages.build\<close>\<close>

definition is_macro :: "Dec \<Rightarrow> bool" where
  "is_macro dec = truthy (get_prop (d_props dec) ''__mac'')"

definition negated :: "Dec \<Rightarrow> bool" where
  "negated dec = truthy (get_prop (d_props dec) ''__not'')"

text \<open>\<open>array.indexOf(macro)\<close>: the first index that holds the same object, or \<open>-1\<close>.\<close>

fun index_from :: "int \<Rightarrow> Dec \<Rightarrow> Dec list \<Rightarrow> int" where
  "index_from k x [] = - 1"
| "index_from k x (y # ys) = (if ident y = ident x then k else index_from (k + 1) x ys)"

definition indexOf :: "Dec \<Rightarrow> Dec list \<Rightarrow> int" where
  "indexOf x xs = index_from 0 x xs"

text \<open>The stubs that a macro returns are new objects: they get the next numbers.\<close>

definition alloc :: "nat \<Rightarrow> Dec list \<Rightarrow> Dec list" where
  "alloc n stubs = map (\<lambda>(k, d). d\<lparr>ident := k\<rparr>) (zip [n ..< n + length stubs] stubs)"

text \<open>
  The macro pass
  \<^verbatim>\<open>for (const macro of page.decorators.filter(dec=>dec.props.__mac)) {
      const impl = this.macros[macro.name];
      if (!impl) throw buildError(macro.loc, ...);
      const decs = impl(page,macro);
      if (macro.props.__not) for (const dec of decs) dec.props.__not = true;
      page.decorators.splice(page.decorators.indexOf(macro),1,...decs);
  }\<close>
  over the macros that are left to visit; the state is the page and the number of the
  next object.

  A name that the registry inherits: the call throws a \<open>TypeError\<close>, or it returns the page,
  which is not iterable, so that the loop over \<open>decs\<close> or the spread \<open>...decs\<close> throws a
  \<open>TypeError\<close> before the list is touched; or it returns the string, and then the loop over
  \<open>decs\<close> of a negated macro throws a \<open>TypeError\<close> at the first character (a string has no
  \<open>props\<close>), and for a macro that is not negated the spread puts the characters of the
  string into the list in the place of the macro (\<open>characters\<close> below).
\<close>

text \<open>
  The rest of the macro pass once characters are in the list. The later macros are looked
  up and expanded as before, and the first of them that fails throws its error. If none
  does, the cancellation pass comes to a character, whose \<open>props\<close> is \<open>undefined\<close>, and
  reading \<open>__not\<close> of it throws a \<open>TypeError\<close>. A list of \<open>Dec\<close> objects cannot hold the
  characters: the function gives the error of the call, exactly, and as the state that the
  throw leaves, the state in which the first characters went in.
\<close>

fun characters :: "(string \<rightharpoonup> MacImpl) \<Rightarrow> Dec list \<Rightarrow> Page \<times> nat \<Rightarrow> (Page \<times> nat) outcome" where
  "characters macros [] pn = Throw TypeError pn"
| "characters macros (macro # rest) pn =
     (case lookup macros (d_name macro) of
        Absent \<Rightarrow> Throw (buildError (d_loc macro) (''Unknown macro `'' @ d_name macro @ ''`'')) pn
      | Own impl \<Rightarrow> characters macros rest pn
      | Inherited Returns_String \<Rightarrow>
          if negated macro then Throw TypeError pn else characters macros rest pn
      | Inherited Returns_Page \<Rightarrow> Throw TypeError pn
      | Inherited Fails \<Rightarrow> Throw TypeError pn)"

fun expand_macros :: "(string \<rightharpoonup> MacImpl) \<Rightarrow> Dec list \<Rightarrow> Page \<times> nat \<Rightarrow> (Page \<times> nat) outcome" where
  "expand_macros macros [] (page, n) = Return (page, n)"
| "expand_macros macros (macro # rest) (page, n) =
     (case lookup macros (d_name macro) of
        Absent \<Rightarrow> Throw (buildError (d_loc macro) (''Unknown macro `'' @ d_name macro @ ''`'')) (page, n)
      | Own impl \<Rightarrow>
          let stubs = alloc n (impl page macro);
              decs = (if negated macro
                      then map (\<lambda>dec. dec\<lparr>d_props := set_prop ''__not'' (VBool True) (d_props dec)\<rparr>) stubs
                      else stubs)
          in expand_macros macros rest
               (page\<lparr>decorators := splice (indexOf macro (decorators page)) 1 decs (decorators page)\<rparr>,
                n + length stubs)
      | Inherited Returns_String \<Rightarrow>
          if negated macro then Throw TypeError (page, n) else characters macros rest (page, n)
      | Inherited Returns_Page \<Rightarrow> Throw TypeError (page, n)
      | Inherited Fails \<Rightarrow> Throw TypeError (page, n))"

text \<open>
  The cancellation pass. Its inner loop
  \<^verbatim>\<open>for (let j = page.decorators.length-1; j >= i; j--)
      if (page.decorators[j].name == dec.name) page.decorators.splice(j,1);\<close>
  entered with the current value of \<open>j\<close>; \<open>nm\<close> is \<open>dec.name\<close>.
\<close>

function cancel_inner :: "string \<Rightarrow> int \<Rightarrow> int \<Rightarrow> Dec list \<Rightarrow> js_error + Dec list" where
  "cancel_inner nm i j ds =
     (if j \<ge> i then
        (case at ds j of
           None \<Rightarrow> Inl TypeError
         | Some d \<Rightarrow> cancel_inner nm i (j - 1) (if d_name d = nm then splice j 1 [] ds else ds))
      else Inr ds)"
  by pat_completeness auto
termination
  by (relation "measure (\<lambda>(nm, i, j, ds). nat (j - i + 1))") auto

declare cancel_inner.simps [simp del]

text \<open>
  The outer loop
  \<^verbatim>\<open>for (let i = page.decorators.length-1; i >= 0; i--) {
      const dec = page.decorators[i];
      if (!dec.props.__not) continue;
      for (let j = ...) ...
  }\<close>
  entered with the current value of \<open>i\<close>.
\<close>

function cancel_outer :: "int \<Rightarrow> Dec list \<Rightarrow> js_error + Dec list" where
  "cancel_outer i ds =
     (if i \<ge> 0 then
        (case at ds i of
           None \<Rightarrow> Inl TypeError
         | Some dec \<Rightarrow>
             if \<not> negated dec then cancel_outer (i - 1) ds
             else (case cancel_inner (d_name dec) i (int (length ds) - 1) ds of
                     Inl e \<Rightarrow> Inl e
                   | Inr ds' \<Rightarrow> cancel_outer (i - 1) ds'))
      else Inr ds)"
  by pat_completeness auto
termination
  by (relation "measure (\<lambda>(i, ds). nat (i + 1))") auto

declare cancel_outer.simps [simp del]

definition cancellation :: "Dec list \<Rightarrow> js_error + Dec list" where
  "cancellation ds = cancel_outer (int (length ds) - 1) ds"

text \<open>
  The invocation pass
  \<^verbatim>\<open>for (const dec of page.decorators) {
      const impl = this.decorators[dec.name];
      if (!impl) throw buildError(dec.loc, ...);
      impl(page,dec);
  }\<close>
  over the decorators that are left to visit. What an inherited value returns is dropped.
\<close>

fun invoke :: "(string \<rightharpoonup> DecImpl) \<Rightarrow> Dec list \<Rightarrow> Page \<Rightarrow> Page outcome" where
  "invoke impls [] page = Return page"
| "invoke impls (dec # rest) page =
     (case lookup impls (d_name dec) of
        Absent \<Rightarrow> Throw (buildError (d_loc dec) (''Unknown decorator `'' @ d_name dec @ ''`'')) page
      | Own impl \<Rightarrow> invoke impls rest (page\<lparr>p_props := impl page dec\<rparr>)
      | Inherited Returns_String \<Rightarrow> invoke impls rest page
      | Inherited Returns_Page \<Rightarrow> invoke impls rest page
      | Inherited Fails \<Rightarrow> Throw TypeError page)"

text \<open>The body of the loop over the pages: the three passes, then \<open>page.decorators = []\<close>.\<close>

definition resolve_page :: "Pages \<Rightarrow> Page \<times> nat \<Rightarrow> (Page \<times> nat) outcome" where
  "resolve_page this pn =
     (case expand_macros (macro_impls this) (filter is_macro (decorators (fst pn))) pn of
        Throw e pn' \<Rightarrow> Throw e pn'
      | Return (page, n) \<Rightarrow>
          (case cancellation (decorators page) of
             Inl e \<Rightarrow> Throw e (page, n)
           | Inr ds \<Rightarrow>
               (case invoke (decorator_impls this) ds (page\<lparr>decorators := ds\<rparr>) of
                  Throw e page' \<Rightarrow> Throw e (page', n)
                | Return page' \<Rightarrow> Return (page'\<lparr>decorators := []\<rparr>, n))))"

text \<open>\<open>for (const page of namespace.pages)\<close>: a throw leaves the later pages as they are.\<close>

fun build_pages :: "Pages \<Rightarrow> Page list \<Rightarrow> nat \<Rightarrow> (Page list \<times> nat) outcome" where
  "build_pages this [] n = Return ([], n)"
| "build_pages this (page # rest) n =
     (case resolve_page this (page, n) of
        Throw e (page', n') \<Rightarrow> Throw e (page' # rest, n')
      | Return (page', n') \<Rightarrow>
          (case build_pages this rest n' of
             Throw e (rest', n'') \<Rightarrow> Throw e (page' # rest', n'')
           | Return (rest', n'') \<Rightarrow> Return (page' # rest', n'')))"

text \<open>\<open>for (const namespace of this.namespaces)\<close>\<close>

fun build_namespaces :: "Pages \<Rightarrow> Namespace list \<Rightarrow> nat \<Rightarrow> (Namespace list \<times> nat) outcome" where
  "build_namespaces this [] n = Return ([], n)"
| "build_namespaces this (namespace # rest) n =
     (case build_pages this (pages namespace) n of
        Throw e (ps, n') \<Rightarrow> Throw e (namespace\<lparr>pages := ps\<rparr> # rest, n')
      | Return (ps, n') \<Rightarrow>
          (case build_namespaces this rest n' of
             Throw e (rest', n'') \<Rightarrow> Throw e (namespace\<lparr>pages := ps\<rparr> # rest', n'')
           | Return (rest', n'') \<Rightarrow> Return (namespace\<lparr>pages := ps\<rparr> # rest', n'')))"

text \<open>
  \<open>build(params)\<close> for \<open>params\<close> without \<open>outputPath\<close>: the resolution of every page. (With
  an \<open>outputPath\<close> the method goes on to read and write files.)
\<close>

definition build :: "Pages \<Rightarrow> Pages outcome" where
  "build this =
     (case build_namespaces this (namespaces this) (next_ident this) of
        Throw e (ns, n) \<Rightarrow> Throw e (this\<lparr>namespaces := ns, next_ident := n\<rparr>)
      | Return (ns, n) \<Rightarrow> Return (this\<lparr>namespaces := ns, next_ident := n\<rparr>))"

text \<open>The pages of all the namespaces, in the order of the two loops.\<close>

definition all_pages :: "Namespace list \<Rightarrow> Page list" where
  "all_pages ns = concat (map pages ns)"

section \<open>\<open>builtinLib\<close>\<close>

text \<open>The macro \<open>auto\<close>: two stubs at the location of the macro.\<close>

definition auto_macro :: MacImpl where
  "auto_macro page dec =
     [\<lparr>ident = 0, d_loc = d_loc dec, d_name = ''kind'', d_props = [], d_args = []\<rparr>,
      \<lparr>ident = 0, d_loc = d_loc dec, d_name = ''min'', d_props = [], d_args = []\<rparr>]"

section \<open>The passes in the words of the specification\<close>

text \<open>
  The macro pass in the words of the specification: one pass over the decorator list as it
  was before the pass. An entry that is not flagged as a macro is kept. A macro is looked
  up, expanded once, and replaced where it stands by the stubs that its implementation
  returns for the page as it stands; the stubs are negated if the macro is. What has been
  put out (\<open>out\<close>, the stubs among it) is not examined again. A name that the registry
  only inherits ends the pass as it does in the code.
\<close>

fun expand_rule :: "(string \<rightharpoonup> MacImpl) \<Rightarrow> Dec list \<Rightarrow> Dec list \<Rightarrow> Page \<times> nat \<Rightarrow> (Page \<times> nat) outcome" where
  "expand_rule macros out [] (page, n) = Return (page\<lparr>decorators := out\<rparr>, n)"
| "expand_rule macros out (d # todo) (page, n) =
     (if is_macro d then
        (case lookup macros (d_name d) of
           Absent \<Rightarrow> Throw (buildError (d_loc d) (''Unknown macro `'' @ d_name d @ ''`''))
                     (page\<lparr>decorators := out @ d # todo\<rparr>, n)
         | Own impl \<Rightarrow>
             let stubs = alloc n (impl (page\<lparr>decorators := out @ d # todo\<rparr>) d);
                 decs = (if negated d
                         then map (\<lambda>dec. dec\<lparr>d_props := set_prop ''__not'' (VBool True) (d_props dec)\<rparr>) stubs
                         else stubs)
             in expand_rule macros (out @ decs) todo (page, n + length stubs)
         | Inherited Returns_String \<Rightarrow>
             if negated d then Throw TypeError (page\<lparr>decorators := out @ d # todo\<rparr>, n)
             else characters macros (filter is_macro todo) (page\<lparr>decorators := out @ d # todo\<rparr>, n)
         | Inherited Returns_Page \<Rightarrow> Throw TypeError (page\<lparr>decorators := out @ d # todo\<rparr>, n)
         | Inherited Fails \<Rightarrow> Throw TypeError (page\<lparr>decorators := out @ d # todo\<rparr>, n))
      else expand_rule macros (out @ [d]) todo (page, n))"

text \<open>
  The cancellation rule in the words of the specification: the indices are visited from
  the last to the first; at index \<open>i\<close>, if the entry there is negated, the entries before
  \<open>i\<close> stay and, from index \<open>i\<close> on, every entry with its name goes (the entry itself
  among them). \<open>cancel_rule n ds\<close> visits the indices \<open>n - 1, \<dots>, 0\<close>.
\<close>

definition cancel_at :: "nat \<Rightarrow> Dec list \<Rightarrow> Dec list" where
  "cancel_at i ds =
     (case drop i ds of
        [] \<Rightarrow> ds
      | dec # _ \<Rightarrow>
          if negated dec
          then take i ds @ filter (\<lambda>d. d_name d \<noteq> d_name dec) (drop i ds)
          else ds)"

fun cancel_rule :: "nat \<Rightarrow> Dec list \<Rightarrow> Dec list" where
  "cancel_rule 0 ds = ds"
| "cancel_rule (Suc i) ds = cancel_rule i (cancel_at i ds)"

section \<open>Examples\<close>

text \<open>A location in a one-line text, and decorators as the parser makes them.\<close>

definition loc0 :: Loc where
  "loc0 = \<lparr>src = \<lparr>s_name = ''(input)'', body = ''(n){}''\<rparr>, col = 0, row = 0, len = 1\<rparr>"

definition plain :: "nat \<Rightarrow> string \<Rightarrow> Dec" where
  "plain n name = new_Dec n loc0 name False False False"

definition minus :: "nat \<Rightarrow> string \<Rightarrow> Dec" where
  "minus n name = new_Dec n loc0 name True False False"

text \<open>Tokens, and a parser state inside a namespace with one decorator in each buffer.\<close>

definition brace :: Token where "brace = new_Token 3 0 ''{'' (src loc0)"
definition header :: Token where "header = new_Token 0 0 ''[p]'' (src loc0)"
definition closing :: Token where "closing = new_Token 4 0 ''}'' (src loc0)"

definition in_namespace :: PState where
  "in_namespace = \<lparr>pstate = NamespaceBody, idx = 0, decs = [plain 2 ''c''], groupDecs = [plain 1 ''b''],
      globDecs = [plain 0 ''a''],
      nss = [\<lparr>n_loc = loc0, n_name = ''n'', n_props = [], pages = []\<rparr>], fresh = 3\<rparr>"

text \<open>What a call left behind: the names of the namespaces, of their pages, and the decorators
  (object and name) of each page; the error of a call that threw.\<close>

definition dec_summary :: "Dec \<Rightarrow> nat \<times> string" where
  "dec_summary d = (ident d, d_name d)"

definition page_summary :: "Page \<Rightarrow> string \<times> (nat \<times> string) list" where
  "page_summary p = (p_name p, map dec_summary (decorators p))"

definition namespace_summary :: "Namespace \<Rightarrow> string \<times> (string \<times> (nat \<times> string) list) list" where
  "namespace_summary n = (n_name n, map page_summary (pages n))"

definition summary :: "Pages outcome \<Rightarrow> (string \<times> (string \<times> (nat \<times> string) list) list) list option" where
  "summary r = (case r of Return P \<Rightarrow> Some (map namespace_summary (namespaces P)) | Throw e P \<Rightarrow> None)"

text \<open>
  A library: the decorators write the number of the decorator object that they are called
  with into the properties of the page, under the name of the decorator.
\<close>

definition mark :: DecImpl where
  "mark page dec = set_prop (d_name dec) (VNum (int (ident dec))) (p_props page)"

definition marking :: "(string \<rightharpoonup> DecImpl) option \<times> (string \<rightharpoonup> MacImpl) option" where
  "marking = (Some [''a'' \<mapsto> mark, ''b'' \<mapsto> mark, ''y'' \<mapsto> mark, ''foo'' \<mapsto> mark, ''bar'' \<mapsto> mark,
                    ''kind'' \<mapsto> mark, ''min'' \<mapsto> mark],
              Some [''auto'' \<mapsto> auto_macro])"

text \<open>A page as a call left it: name, path, properties and decorators.\<close>

definition page_state :: "Page \<Rightarrow> string \<times> string option \<times> Props \<times> (nat \<times> string) list" where
  "page_state p = (p_name p, p_path p, p_props p, map dec_summary (decorators p))"






text \<open>\<open>add\<close> of a text, then \<open>build\<close>.\<close>

definition run :: "string \<Rightarrow> Pages \<Rightarrow> Pages outcome" where
  "run content this =
     (case add (new_Source ''(input)'' content) None this of
        Return P \<Rightarrow> build P
      | Throw e P \<Rightarrow> Throw e P)"

text \<open>A page with the macro \<open>%-!auto\<close>; a namespace of three pages.\<close>

definition cancelled_auto :: Dec where
  "cancelled_auto = new_Dec 1 loc0 ''auto'' True True False"

definition a_page :: Page where
  "a_page = \<lparr>p_loc = loc0, p_name = ''p'', p_path = None, p_props = [],
              decorators = [plain 0 ''min'', cancelled_auto]\<rparr>"

definition page_with :: "string \<Rightarrow> Dec list \<Rightarrow> Page" where
  "page_with name ds = \<lparr>p_loc = loc0, p_name = name, p_path = None, p_props = [], decorators = ds\<rparr>"

definition three_pages :: Namespace where
  "three_pages = \<lparr>n_loc = loc0, n_name = ''n'', n_props = [],
                   pages = [page_with ''a'' [], page_with ''b'' [plain 0 ''foo''], page_with ''c'' [plain 1 ''bar'']]\<rparr>"

text \<open>The tokens of two pages \<open>[p]{}\<close>.\<close>

definition two_pages :: "Token list" where
  "two_pages = [header, brace, closing, header, brace, closing]"

definition thrown :: "Pages outcome \<Rightarrow> js_error option" where
  "thrown r = (case r of Return P \<Rightarrow> None | Throw e P \<Rightarrow> Some e)"

text \<open>
  A state inside a namespace after the page \<open>p\<close>, which got the global decorator \<open>a\<close>; the
  tokens of \<open>%%b [q]{} [r]{}\<close>, and the state after the declaration \<open>%%b\<close>.
\<close>

definition after_first_page :: PState where
  "after_first_page = \<lparr>pstate = NamespaceBody, idx = 0, decs = [], groupDecs = [],
      globDecs = [plain 0 ''a''],
      nss = [\<lparr>n_loc = loc0, n_name = ''n'', n_props = [], pages = [page_with ''p'' [plain 0 ''a'']]\<rparr>],
      fresh = 1\<rparr>"

definition global_then_pages :: "Token list" where
  "global_then_pages = tokenize (new_Source ''(input)'' ''%%b [q]{} [r]{}'')"

definition declared :: PState where
  "declared = after_first_page\<lparr>idx := 2,
      globDecs := [plain 0 ''a'', new_Dec 1 (t_loc (global_then_pages ! 0)) ''b'' False False True],
      fresh := 2\<rparr>"

text \<open>
  A state inside the namespace of the three pages, with empty buffers; the tokens of
  \<^verbatim>\<open>[p]{@"x"} %y [q]{}}\<close>; and the object with the library \<open>marking\<close> that has the namespaces
  which the loop leaves.
\<close>

definition between_pages :: PState where
  "between_pages = \<lparr>pstate = NamespaceBody, idx = 0, decs = [], groupDecs = [], globDecs = [],
      nss = [three_pages], fresh = 2\<rparr>"

definition plain_then_decorated :: "Token list" where
  "plain_then_decorated = tokenize (new_Source ''(input)'' ''[p]{@\"x\"} %y [q]{}}'')"

definition parsed :: Pages where
  "parsed = use marking (new_Pages\<lparr>namespaces := nss (final (parse_loop None plain_then_decorated between_pages)),
                                   next_ident := 3\<rparr>)"

section \<open>The cancellation pass\<close>

lemma at_int: "at xs (int n) = (if n < length xs then Some (xs ! n) else None)"
  unfolding at_def by (simp del: of_nat_add)

lemma at_neg: "i < 0 \<Longrightarrow> at xs i = None"
  by (simp add: at_def)

lemma splice_delete_one:
  "n < length xs \<Longrightarrow> splice (int n) 1 [] xs = take n xs @ drop (Suc n) xs"
  unfolding splice_def Let_def by (simp add: min_def del: of_nat_add)

lemma cancel_inner_nat:
  "i + k \<le> length ds \<Longrightarrow>
   cancel_inner nm (int i) (int (i + k) - 1) ds =
     Inr (take i ds @ filter (\<lambda>d. d_name d \<noteq> nm) (take k (drop i ds)) @ drop (i + k) ds)"
proof (induction k arbitrary: ds)
  case 0
  then show ?case by (subst cancel_inner.simps) simp
next
  case (Suc k)
  let ?j = "i + k"
  have jlt: "?j < length ds" using Suc.prems by simp
  have ij: "int (i + Suc k) - 1 = int ?j" by simp
  have at: "at ds (int (i + Suc k) - 1) = Some (ds ! ?j)"
    unfolding ij at_int using jlt by simp
  have tk: "take (Suc k) (drop i ds) = take k (drop i ds) @ [ds ! ?j]"
    using jlt by (simp add: take_Suc_conv_app_nth)
  have dr: "drop ?j ds = ds ! ?j # drop (Suc ?j) ds"
    using jlt by (simp add: Cons_nth_drop_Suc)
  show ?case
  proof (cases "d_name (ds ! ?j) = nm")
    case True
    let ?ds' = "take ?j ds @ drop (Suc ?j) ds"
    have sp: "splice (int (i + Suc k) - 1) 1 [] ds = ?ds'"
      unfolding ij using jlt by (rule splice_delete_one)
    have len: "i + k \<le> length ?ds'" using jlt by simp
    have ih: "cancel_inner nm (int i) (int (i + k) - 1) ?ds' =
       Inr (take i ?ds' @ filter (\<lambda>d. d_name d \<noteq> nm) (take k (drop i ?ds')) @ drop (i + k) ?ds')"
      by (rule Suc.IH[OF len])
    have a: "take i ?ds' = take i ds" using jlt by simp
    have b: "take k (drop i ?ds') = take k (drop i ds)" using jlt by (auto simp add: min_def drop_take)
    have c: "drop (i + k) ?ds' = drop (Suc ?j) ds" using jlt by simp
    have step: "cancel_inner nm (int i) (int (i + Suc k) - 1) ds = cancel_inner nm (int i) (int (i + k) - 1) ?ds'"
      using at sp True by (subst cancel_inner.simps) simp
    show ?thesis
      unfolding step ih a b c tk using True by simp
  next
    case False
    have len: "i + k \<le> length ds" using jlt by simp
    have step: "cancel_inner nm (int i) (int (i + Suc k) - 1) ds = cancel_inner nm (int i) (int (i + k) - 1) ds"
      using at False by (subst cancel_inner.simps) simp
    show ?thesis
      unfolding step Suc.IH[OF len] tk using False dr by simp
  qed
qed

lemma cancel_at_nth:
  "i < length ds \<Longrightarrow>
   cancel_at i ds = (if negated (ds ! i)
                     then take i ds @ filter (\<lambda>d. d_name d \<noteq> d_name (ds ! i)) (drop i ds)
                     else ds)"
  by (simp add: cancel_at_def Cons_nth_drop_Suc[symmetric])

lemma length_cancel_at: "i \<le> length ds \<Longrightarrow> i \<le> length (cancel_at i ds)"
  by (auto simp: cancel_at_def split: list.splits)

lemma cancel_outer_rule:
  "n \<le> length ds \<Longrightarrow> cancel_outer (int n - 1) ds = Inr (cancel_rule n ds)"
proof (induction n arbitrary: ds)
  case 0
  then show ?case by (subst cancel_outer.simps) simp
next
  case (Suc i)
  have ilt: "i < length ds" using Suc.prems by simp
  have ii: "int (Suc i) - 1 = int i" by simp
  have at: "at ds (int i) = Some (ds ! i)" using ilt by (simp add: at_int)
  show ?case
  proof (cases "negated (ds ! i)")
    case False
    have "cancel_outer (int (Suc i) - 1) ds = cancel_outer (int i - 1) ds"
      unfolding ii using at False by (subst cancel_outer.simps) simp
    also have "\<dots> = Inr (cancel_rule i ds)"
      using ilt by (intro Suc.IH) simp
    finally show ?thesis using False ilt by (simp add: cancel_at_nth)
  next
    case True
    let ?k = "length ds - i"
    have k: "int (length ds) - 1 = int (i + ?k) - 1" "i + ?k \<le> length ds" "i + ?k = length ds"
      using ilt by simp_all
    have inner: "cancel_inner (d_name (ds ! i)) (int i) (int (length ds) - 1) ds = Inr (cancel_at i ds)"
      unfolding k(1) cancel_inner_nat[OF k(2)] using True ilt by (simp add: cancel_at_nth)
    have "cancel_outer (int (Suc i) - 1) ds = cancel_outer (int i - 1) (cancel_at i ds)"
      unfolding ii using at True inner by (subst cancel_outer.simps) simp
    also have "\<dots> = Inr (cancel_rule i (cancel_at i ds))"
      using ilt by (intro Suc.IH length_cancel_at) simp
    finally show ?thesis by simp
  qed
qed

text \<open>
  C1: the cancellation pass of \<open>build\<close> never fails and does what the rule says: it visits
  the indices of the page's decorator list from the last to the first, and at every
  index that holds a negated decorator it removes, from that index on, every decorator
  with the same name (the negated one among them), and leaves the decorators before that
  index in the list.
\<close>

theorem cancellation_pass: "cancellation ds = Inr (cancel_rule (length ds) ds)"
  unfolding cancellation_def by (rule cancel_outer_rule) simp

text \<open>
  In \<open>%min %kind %-min %min\<close> the first \<open>min\<close> stays, the negated one and the one after it
  go.
\<close>

theorem cancellation_pass_witness:
  "cancellation [plain 0 ''min'', plain 1 ''kind'', minus 2 ''min'', plain 3 ''min'']
     = Inr [plain 0 ''min'', plain 1 ''kind'']"
  using cancellation_pass [of "[plain 0 ''min'', plain 1 ''kind'', minus 2 ''min'', plain 3 ''min'']"]
  by (simp add: numeral_eq_Suc cancel_at_def negated_def plain_def minus_def new_Dec_def flag_def
                set_prop_def get_prop_def)




section \<open>The macro pass\<close>

lemma index_from_skip:
  "\<forall>x\<in>set xs. ident x \<noteq> ident d \<Longrightarrow> index_from k d (xs @ d # ys) = k + int (length xs)"
  by (induction xs arbitrary: k) auto

lemma indexOf_found:
  "\<forall>x\<in>set xs. ident x \<noteq> ident d \<Longrightarrow> indexOf d (xs @ d # ys) = int (length xs)"
  by (simp add: indexOf_def index_from_skip)

lemma splice_replace_one:
  "splice (int (length xs)) 1 items (xs @ d # ys) = xs @ items @ ys"
  by (simp add: splice_def Let_def)

lemma ident_zip:
  "length ks = length (stubs :: Dec list) \<Longrightarrow>
   map ident (map (\<lambda>(k, d). d\<lparr>ident := k\<rparr>) (zip ks stubs)) = ks"
  by (induction ks stubs rule: list_induct2) simp_all

lemma ident_alloc: "map ident (alloc n stubs) = [n ..< n + length stubs]"
  unfolding alloc_def by (rule ident_zip) simp

lemma length_alloc [simp]: "length (alloc n stubs) = length stubs"
  by (simp add: alloc_def)

lemma ident_alloc_range: "x \<in> set (alloc n stubs) \<Longrightarrow> n \<le> ident x \<and> ident x < n + length stubs"
proof -
  assume "x \<in> set (alloc n stubs)"
  then have "ident x \<in> set (map ident (alloc n stubs))" by simp
  then show ?thesis unfolding ident_alloc by simp
qed

lemma expand_macros_rule:
  assumes "distinct (map ident todo)" and "\<forall>d\<in>set todo. ident d < n"
      and "\<forall>x\<in>set out. \<forall>d\<in>set todo. ident x \<noteq> ident d"
  shows "expand_macros macros (filter is_macro todo) (page\<lparr>decorators := out @ todo\<rparr>, n)
           = expand_rule macros out todo (page, n)"
  using assms
proof (induction todo arbitrary: out page n)
  case Nil
  show ?case by simp
next
  case (Cons d todo)
  have dist: "distinct (map ident todo)" and dn: "\<forall>e\<in>set todo. ident d \<noteq> ident e"
    using Cons.prems(1) by auto
  have lt: "\<forall>e\<in>set todo. ident e < n" using Cons.prems(2) by simp
  have outd: "\<forall>x\<in>set out. ident x \<noteq> ident d" using Cons.prems(3) by simp
  show ?case
  proof (cases "is_macro d")
    case False
    have "\<forall>x\<in>set (out @ [d]). \<forall>e\<in>set todo. ident x \<noteq> ident e"
      using Cons.prems(3) dn by auto
    from Cons.IH[OF dist lt this, of page] False show ?thesis by simp
  next
    case True
    show ?thesis
    proof (cases "lookup macros (d_name d)")
      case Absent
      with True show ?thesis by simp
    next
      case (Inherited v)
      with True show ?thesis by (cases v) simp_all
    next
      case (Own impl)
      let ?page = "page\<lparr>decorators := out @ d # todo\<rparr>"
      let ?stubs = "alloc n (impl ?page d)"
      let ?decs = "if negated d
                   then map (\<lambda>dec. dec\<lparr>d_props := set_prop ''__not'' (VBool True) (d_props dec)\<rparr>) ?stubs
                   else ?stubs"
      have ids: "\<forall>x\<in>set ?decs. n \<le> ident x"
        by (auto dest: ident_alloc_range)
      have 1: "\<forall>e\<in>set todo. ident e < n + length ?stubs" using lt by auto
      have 2: "\<forall>x\<in>set (out @ ?decs). \<forall>e\<in>set todo. ident x \<noteq> ident e"
      proof (intro ballI)
        fix x e assume x: "x \<in> set (out @ ?decs)" and e: "e \<in> set todo"
        show "ident x \<noteq> ident e"
        proof (cases "x \<in> set out")
          case True
          with Cons.prems(3) e show ?thesis by simp
        next
          case False
          with x have "x \<in> set ?decs" by simp
          with ids have "n \<le> ident x" by blast
          moreover have "ident e < n" using lt e by blast
          ultimately show ?thesis by simp
        qed
      qed
      have sp: "splice (indexOf d (out @ d # todo)) 1 ?decs (out @ d # todo) = out @ ?decs @ todo"
        unfolding indexOf_found[OF outd] by (rule splice_replace_one)
      have "expand_macros macros (filter is_macro (d # todo)) (?page, n)
              = expand_macros macros (filter is_macro todo)
                  (page\<lparr>decorators := (out @ ?decs) @ todo\<rparr>, n + length ?stubs)"
        using True Own sp by (simp add: Let_def)
      also have "\<dots> = expand_rule macros (out @ ?decs) todo (page, n + length ?stubs)"
        by (rule Cons.IH[OF dist 1 2])
      finally show ?thesis using True Own by (simp add: Let_def)
    qed
  qed
qed

text \<open>
  C2: for a page whose decorators are distinct objects allocated before the pass (as every
  page that the parser makes), the macro pass of \<open>build\<close> is the rule \<open>expand_rule\<close>:
  the macros are those of the list as it was before the pass, each is expanded once and
  replaced in place by its stubs, the stubs are not examined (whatever their names), and the
  stubs of a negated macro are negated.
\<close>

theorem macro_expansion_one_level:
  assumes "distinct (map ident (decorators page))" and "\<forall>d\<in>set (decorators page). ident d < n"
  shows "expand_macros macros (filter is_macro (decorators page)) (page, n)
           = expand_rule macros [] (decorators page) (page, n)"
  using expand_macros_rule[OF assms, of "[]" macros page] by simp

text \<open>
  \<open>%min %-!auto\<close> with \<open>kind\<close> registered as a macro too: the stub \<open>kind\<close> stays a stub, and
  both stubs are negated.
\<close>

theorem macro_expansion_one_level_witness:
  "expand_macros [''auto'' \<mapsto> auto_macro, ''kind'' \<mapsto> auto_macro]
       (filter is_macro (decorators a_page)) (a_page, 2)
     = Return (a_page\<lparr>decorators :=
                 [plain 0 ''min'',
                  \<lparr>ident = 2, d_loc = loc0, d_name = ''kind'', d_props = [(''__not'', VBool True)], d_args = []\<rparr>,
                  \<lparr>ident = 3, d_loc = loc0, d_name = ''min'', d_props = [(''__not'', VBool True)], d_args = []\<rparr>]\<rparr>,
               4)"
proof -
  have h: "distinct (map ident (decorators a_page))" "\<forall>d\<in>set (decorators a_page). ident d < 2"
    by (simp_all add: a_page_def plain_def cancelled_auto_def new_Dec_def flag_def)
  have "expand_rule [''auto'' \<mapsto> auto_macro, ''kind'' \<mapsto> auto_macro] [] (decorators a_page) (a_page, 2)
     = Return (a_page\<lparr>decorators :=
                 [plain 0 ''min'',
                  \<lparr>ident = 2, d_loc = loc0, d_name = ''kind'', d_props = [(''__not'', VBool True)], d_args = []\<rparr>,
                  \<lparr>ident = 3, d_loc = loc0, d_name = ''min'', d_props = [(''__not'', VBool True)], d_args = []\<rparr>]\<rparr>,
               4)"
    by code_simp
  with macro_expansion_one_level [OF h, of "[''auto'' \<mapsto> auto_macro, ''kind'' \<mapsto> auto_macro]"]
  show ?thesis by simp
qed

section \<open>Opening a page\<close>

lemma isPage_val: "isPage token \<Longrightarrow> \<exists>r. t_val token = CHR ''['' # r"
  by (auto simp: isPage_def startsWith_def split: list.splits)

lemma isPage_not_close: "isPage token \<Longrightarrow> t_val token \<noteq> ''}''"
  by (auto dest: isPage_val)

lemma isPage_not_identifier: "isPage token \<Longrightarrow> \<not> isIdentifier token"
  by (auto dest!: isPage_val simp: isIdentifier_def identifier_char_def)

lemma last_upd_last: "xs \<noteq> [] \<Longrightarrow> last (upd_last f xs) = f (last xs)"
  by (cases xs rule: rev_cases) (simp_all add: upd_last_def)

lemma butlast_upd_last: "butlast (upd_last f xs) = butlast xs"
  by (cases xs rule: rev_cases) (simp_all add: upd_last_def)

text \<open>
  C3: when the parser, inside a namespace, reads a page header followed by \<open>{\<close>, the new
  page is appended to the namespace with the decorator list global ++ group ++ local of the
  buffers as they are at that moment, and afterwards the local buffer is empty while the
  group and global buffers are as before.
\<close>

theorem page_creation:
  assumes "pstate s = NamespaceBody" and "nss s \<noteq> []" and "isPage token"
      and "tok toks (idx s + 1) = Inr nxt" and "t_val nxt = ''{''"
  shows "\<exists>s'. step props toks s token = Inr (Next s') \<and>
           pages (last (nss s')) =
             pages (last (nss s)) @
               [\<lparr>p_loc = t_loc token, p_name = slice1 (t_val token), p_path = None, p_props = [],
                 decorators = globDecs s @ groupDecs s @ decs s\<rparr>] \<and>
           butlast (nss s') = butlast (nss s) \<and>
           decs s' = [] \<and> groupDecs s' = groupDecs s \<and> globDecs s' = globDecs s \<and>
           pstate s' = PageBody"
proof -
  have "namespace_step toks s token = open_page toks s token"
    using assms(2,3) isPage_not_close[OF assms(3)] isPage_not_identifier[OF assms(3)]
    by (simp add: namespace_step_def)
  then show ?thesis
    using assms by (simp add: step_def open_page_def last_upd_last butlast_upd_last)
qed

theorem page_creation_witness:
  "\<exists>s'. step None [header, brace] in_namespace header = Inr (Next s') \<and>
      map decorators (pages (last (nss s'))) = [[plain 0 ''a'', plain 1 ''b'', plain 2 ''c'']] \<and>
      decs s' = [] \<and> groupDecs s' = [plain 1 ''b''] \<and> globDecs s' = [plain 0 ''a'']"
proof -
  have "pstate in_namespace = NamespaceBody" "nss in_namespace \<noteq> []" "isPage header"
       "tok [header, brace] (idx in_namespace + 1) = Inr brace" "t_val brace = ''{''"
    by (simp_all add: in_namespace_def header_def brace_def new_Token_def isPage_def startsWith_def
                      endsWith_def tok_def)
  from page_creation [OF this, of None] show ?thesis
    by (auto simp: in_namespace_def)
qed

section \<open>The reach of the buffers\<close>

text \<open>The decorator lists of all the pages, in the order in which the pages were made.\<close>

definition all_lists :: "PState \<Rightarrow> Dec list list" where
  "all_lists s = map decorators (concat (map pages (nss s)))"

text \<open>
  What one turn of the loop can do to the buffers, the counter and the lists: nothing
  (or empty the group buffer), open a group, declare a decorator, or open a page.
\<close>

definition effect :: "PState \<Rightarrow> PState \<Rightarrow> bool" where
  "effect s s' \<longleftrightarrow>
     (all_lists s' = all_lists s \<and> fresh s' = fresh s \<and> globDecs s' = globDecs s \<and>
      decs s' = decs s \<and> (groupDecs s' = groupDecs s \<or> groupDecs s' = []))
   \<or> (all_lists s' = all_lists s \<and> fresh s' = fresh s \<and> globDecs s' = globDecs s \<and>
      groupDecs s' = decs s \<and> decs s' = [])
   \<or> (\<exists>d. ident d = fresh s \<and> all_lists s' = all_lists s \<and> fresh s' = fresh s + 1 \<and>
           groupDecs s' = groupDecs s \<and>
           (globDecs s' = globDecs s @ [d] \<and> decs s' = decs s \<or>
            globDecs s' = globDecs s \<and> decs s' = decs s @ [d]))
   \<or> (all_lists s' = all_lists s @ [globDecs s @ groupDecs s @ decs s] \<and> fresh s' = fresh s \<and>
      globDecs s' = globDecs s \<and> groupDecs s' = groupDecs s \<and> decs s' = [])"

lemma upd_last_Nil [simp]: "upd_last f [] = []"
  by (simp add: upd_last_def)

lemma upd_last_snoc [simp]: "upd_last f (xs @ [x]) = xs @ [f x]"
  by (simp add: upd_last_def)

lemma map_pages_upd_last:
  "(\<And>n. pages (f n) = pages n) \<Longrightarrow> map pages (upd_last f ns) = map pages ns"
  by (cases ns rule: rev_cases) simp_all

lemma concat_pages_upd_last_snoc:
  "ns \<noteq> [] \<Longrightarrow>
   concat (map pages (upd_last (\<lambda>n. n\<lparr>pages := pages n @ [p]\<rparr>) ns)) = concat (map pages ns) @ [p]"
  by (cases ns rule: rev_cases) simp_all

lemma map_decorators_upd_last:
  "(\<And>p. decorators (f p) = decorators p) \<Longrightarrow> map decorators (upd_last f ps) = map decorators ps"
  by (cases ps rule: rev_cases) simp_all

lemma lists_upd_page:
  assumes "\<And>p. decorators (f p) = decorators p"
  shows "map decorators (concat (map pages (upd_page f ns))) = map decorators (concat (map pages ns))"
  by (cases ns rule: rev_cases) (simp_all add: upd_page_def map_decorators_upd_last[OF assms])

lemma params_ident: "params toks k dec = Inr (j, d) \<Longrightarrow> ident d = ident dec"
proof (induction toks k dec arbitrary: j d rule: params.induct)
  case (1 toks k dec)
  show ?case
  proof (cases "tok toks k")
    case (Inl e)
    with "1.prems" show ?thesis by (subst (asm) params.simps) simp
  next
    case (Inr a)
    show ?thesis
    proof (cases "t_val a = ''>''")
      case True
      with Inr "1.prems" show ?thesis by (subst (asm) params.simps) simp
    next
      case False
      note nogt = this
      show ?thesis
      proof (cases "isIdentifier a")
        case True
        from "1.prems" Inr nogt True obtain eq v x where
          eq: "tok toks (k + 1) = Inr eq" "\<not> t_val eq \<noteq> ''=''" and
          v: "tok toks (k + 2) = Inr v" "resolveValue v = Inr x" and
          rec: "params toks (k + 3) (dec\<lparr>d_props := set_prop (t_val a) x (d_props dec)\<rparr>) = Inr (j, d)"
          by (subst (asm) params.simps) (auto split: sum.splits if_splits)
        from "1.IH"(1)[OF Inr nogt True eq v rec] show ?thesis by simp
      next
        case False
        from "1.prems" Inr nogt False obtain x where
          v: "resolveValue a = Inr x" and
          rec: "params toks (k + 1) (dec\<lparr>d_args := d_args dec @ [x]\<rparr>) = Inr (j, d)"
          by (subst (asm) params.simps) (auto split: sum.splits if_splits)
        from "1.IH"(2)[OF Inr nogt False v rec] show ?thesis by simp
      qed
    qed
  qed
qed

lemma ident_new_Dec [simp]: "ident (new_Dec n loc name neg mac glb) = n"
  by (simp add: new_Dec_def flag_def)

lemma dec_declaration_push:
  assumes "dec_declaration toks s token = Inr s'"
  shows "\<exists>glb d k. ident d = fresh s \<and> s' = push_dec glb d k s"
proof -
  from assms obtain glb i2 neg i3 mac i4 t4 where
    m: "marker ''%'' toks (idx s + 1) = Inr (glb, i2)" "marker ''-'' toks i2 = Inr (neg, i3)"
       "marker ''!'' toks i3 = Inr (mac, i4)" "tok toks i4 = Inr t4"
    unfolding dec_declaration_def by (auto split: sum.splits)
  let ?dec = "new_Dec (fresh s) (t_loc token) (t_val t4) neg mac glb"
  from assms m have "s' = push_dec glb ?dec i4 s \<or>
      (\<exists>k d. params toks (i4 + 2) ?dec = Inr (k, d) \<and> s' = push_dec glb d k s)"
    by (auto simp: dec_declaration_def Let_def split: sum.splits if_splits)
  then show ?thesis
  proof (elim disjE exE conjE)
    assume "s' = push_dec glb ?dec i4 s"
    then show ?thesis using ident_new_Dec by blast
  next
    fix k d assume "params toks (i4 + 2) ?dec = Inr (k, d)" and s': "s' = push_dec glb d k s"
    from params_ident[OF this(1)] have "ident d = fresh s" by simp
    with s' show ?thesis by blast
  qed
qed

text \<open>The object that a declaration makes, and the buffer it goes to.\<close>

lemma percent_token:
  "t_val token = ''%'' \<Longrightarrow> \<not> isIdentifier token \<and> \<not> isPage token \<and> t_val token \<noteq> ''}''"
  by (simp add: isIdentifier_def isPage_def startsWith_def identifier_char_def)

lemma namespace_step_declaration:
  "nss s \<noteq> [] \<Longrightarrow> t_val token = ''%'' \<Longrightarrow> namespace_step toks s token = dec_declaration toks s token"
  using percent_token[of token] by (simp add: namespace_step_def)

lemma params_fixed:
  "params toks k dec = Inr (j, d) \<Longrightarrow> d_loc d = d_loc dec \<and> d_name d = d_name dec"
proof (induction toks k dec arbitrary: j d rule: params.induct)
  case (1 toks k dec)
  show ?case
  proof (cases "tok toks k")
    case (Inl e)
    with "1.prems" show ?thesis by (subst (asm) params.simps) simp
  next
    case (Inr a)
    show ?thesis
    proof (cases "t_val a = ''>''")
      case True
      with Inr "1.prems" show ?thesis by (subst (asm) params.simps) simp
    next
      case False
      note nogt = this
      show ?thesis
      proof (cases "isIdentifier a")
        case True
        from "1.prems" Inr nogt True obtain eq v x where
          eq: "tok toks (k + 1) = Inr eq" "\<not> t_val eq \<noteq> ''=''" and
          v: "tok toks (k + 2) = Inr v" "resolveValue v = Inr x" and
          rec: "params toks (k + 3) (dec\<lparr>d_props := set_prop (t_val a) x (d_props dec)\<rparr>) = Inr (j, d)"
          by (subst (asm) params.simps) (auto split: sum.splits if_splits)
        from "1.IH"(1)[OF Inr nogt True eq v rec] show ?thesis by simp
      next
        case False
        from "1.prems" Inr nogt False obtain x where
          v: "resolveValue a = Inr x" and
          rec: "params toks (k + 1) (dec\<lparr>d_args := d_args dec @ [x]\<rparr>) = Inr (j, d)"
          by (subst (asm) params.simps) (auto split: sum.splits if_splits)
        from "1.IH"(2)[OF Inr nogt False v rec] show ?thesis by simp
      qed
    qed
  qed
qed

lemma new_Dec_fixed [simp]:
  "d_loc (new_Dec n loc name neg mac glb) = loc" "d_name (new_Dec n loc name neg mac glb) = name"
  by (simp_all add: new_Dec_def flag_def)

lemma dec_declaration_object:
  assumes "dec_declaration toks s token = Inr s'"
  obtains glb i2 neg i3 mac i4 t4 d k where
    "marker ''%'' toks (idx s + 1) = Inr (glb, i2)" and "marker ''-'' toks i2 = Inr (neg, i3)" and
    "marker ''!'' toks i3 = Inr (mac, i4)" and "tok toks i4 = Inr t4" and "isIdentifier t4" and
    "d = new_Dec (fresh s) (t_loc token) (t_val t4) neg mac glb \<or>
     \<not> neg \<and> params toks (i4 + 2) (new_Dec (fresh s) (t_loc token) (t_val t4) neg mac glb) = Inr (k, d)" and
    "s' = push_dec glb d k s"
proof -
  from assms obtain glb i2 neg i3 mac i4 t4 where
    m: "marker ''%'' toks (idx s + 1) = Inr (glb, i2)" "marker ''-'' toks i2 = Inr (neg, i3)"
       "marker ''!'' toks i3 = Inr (mac, i4)" "tok toks i4 = Inr t4"
    unfolding dec_declaration_def by (auto split: sum.splits)
  let ?dec = "new_Dec (fresh s) (t_loc token) (t_val t4) neg mac glb"
  from assms m have id: "isIdentifier t4"
    by (auto simp: dec_declaration_def Let_def split: sum.splits if_splits)
  from assms m have "s' = push_dec glb ?dec i4 s \<or>
      (\<exists>k d. \<not> neg \<and> params toks (i4 + 2) ?dec = Inr (k, d) \<and> s' = push_dec glb d k s)"
    by (auto simp: dec_declaration_def Let_def split: sum.splits if_splits)
  then show thesis
  proof (elim disjE exE conjE)
    assume "s' = push_dec glb ?dec i4 s"
    with m id show thesis by (intro that[of glb i2 neg i3 mac i4 t4 ?dec i4]) simp_all
  next
    fix k d assume "\<not> neg" "params toks (i4 + 2) ?dec = Inr (k, d)" "s' = push_dec glb d k s"
    with m id show thesis by (intro that[of glb i2 neg i3 mac i4 t4 d k]) simp_all
  qed
qed

lemma dec_declaration_fixed:
  assumes "dec_declaration toks s token = Inr s'"
  obtains glb i2 d k where "marker ''%'' toks (idx s + 1) = Inr (glb, i2)" and "s' = push_dec glb d k s"
    and "ident d = fresh s" and "d_loc d = t_loc token"
  using assms
proof (rule dec_declaration_object)
  fix glb i2 neg i3 mac i4 t4 d k
  assume m: "marker ''%'' toks (idx s + 1) = Inr (glb, i2)"
     and d: "d = new_Dec (fresh s) (t_loc token) (t_val t4) neg mac glb \<or>
        \<not> neg \<and> params toks (i4 + 2) (new_Dec (fresh s) (t_loc token) (t_val t4) neg mac glb) = Inr (k, d)"
     and s': "s' = push_dec glb d k s"
  from d have "ident d = fresh s" "d_loc d = t_loc token"
    by (auto dest: params_ident params_fixed)
  with m s' show thesis by (rule that)
qed

lemma effect_push_dec: "ident d = fresh s \<Longrightarrow> effect s (push_dec glb d k s)"
  by (auto simp: effect_def push_dec_def all_lists_def)

lemma namespace_prop_effect: "namespace_prop toks s token = Inr s' \<Longrightarrow> effect s s'"
  by (auto simp: effect_def namespace_prop_def all_lists_def map_pages_upd_last
           split: sum.splits if_splits)

lemma open_page_effect: "nss s \<noteq> [] \<Longrightarrow> open_page toks s token = Inr s' \<Longrightarrow> effect s s'"
  by (auto simp: effect_def open_page_def all_lists_def concat_pages_upd_last_snoc Let_def
           split: sum.splits if_splits)

lemma open_group_effect: "open_group s token = Inr s' \<Longrightarrow> effect s s'"
  by (auto simp: effect_def open_group_def all_lists_def split: if_splits)

lemma close_brace_effect: "effect s (close_brace s)"
  by (simp add: effect_def close_brace_def all_lists_def)

lemma namespace_step_effect:
  assumes "namespace_step toks s token = Inr s'"
  shows "effect s s'"
proof -
  have ne: "nss s \<noteq> []" using assms by (auto simp: namespace_step_def)
  show ?thesis
  proof (cases "t_val token = ''}''")
    case True
    with assms ne show ?thesis using close_brace_effect[of s] by (auto simp: namespace_step_def)
  next
    case c1: False
    show ?thesis
    proof (cases "isIdentifier token")
      case True
      with assms ne c1 show ?thesis by (simp add: namespace_step_def namespace_prop_effect)
    next
      case c2: False
      show ?thesis
      proof (cases "isPage token")
        case True
        with assms ne c1 c2 show ?thesis by (simp add: namespace_step_def open_page_effect)
      next
        case c3: False
        show ?thesis
        proof (cases "t_val token = ''%''")
          case True
          with assms ne c1 c2 c3 have "dec_declaration toks s token = Inr s'"
            by (simp add: namespace_step_def)
          from dec_declaration_push[OF this] show ?thesis by (auto intro: effect_push_dec)
        next
          case c4: False
          show ?thesis
          proof (cases "t_val token = ''{''")
            case True
            with assms ne c1 c2 c3 c4 show ?thesis by (simp add: namespace_step_def open_group_effect)
          next
            case False
            with assms ne c1 c2 c3 c4 show ?thesis by (simp add: namespace_step_def split: if_splits)
          qed
        qed
      qed
    qed
  qed
qed

lemma page_prop_effect: "page_prop toks s token = Inr s' \<Longrightarrow> effect s s'"
  by (auto simp: effect_def page_prop_def all_lists_def lists_upd_page split: sum.splits if_splits)

lemma page_path_effect: "page_path toks s = Inr s' \<Longrightarrow> effect s s'"
  by (auto simp: effect_def page_path_def all_lists_def lists_upd_page split: sum.splits if_splits)

lemma page_step_effect:
  assumes "page_step toks s token = Inr s'"
  shows "effect s s'"
proof (cases "t_val token = ''}''")
  case True
  with assms have "s' = s\<lparr>pstate := NamespaceBody\<rparr>" by (auto simp: page_step_def split: if_splits)
  then show ?thesis by (simp add: effect_def all_lists_def)
next
  case c1: False
  show ?thesis
  proof (cases "isIdentifier token")
    case True
    with assms c1 show ?thesis by (auto simp: page_step_def page_prop_effect split: if_splits)
  next
    case c2: False
    show ?thesis
    proof (cases "t_val token = ''@''")
      case True
      with assms c1 c2 show ?thesis by (auto simp: page_step_def page_path_effect split: if_splits)
    next
      case False
      with assms c1 c2 show ?thesis by (auto simp: page_step_def split: if_splits)
    qed
  qed
qed

lemma top_step_effect:
  "top_step props toks s token = Inr r \<Longrightarrow> effect s (case r of Next s' \<Rightarrow> s' | Break s' \<Rightarrow> s')"
  by (auto simp: top_step_def effect_def all_lists_def Let_def split: sum.splits if_splits)

lemma step_effect:
  "step props toks s token = Inr r \<Longrightarrow> effect s (case r of Next s' \<Rightarrow> s' | Break s' \<Rightarrow> s')"
  unfolding step_def
  by (cases "pstate s"; cases "namespace_step toks s token"; cases "page_step toks s token")
     (auto dest: top_step_effect namespace_step_effect page_step_effect)

lemma effect_idx [simp]: "effect s (s'\<lparr>idx := k\<rparr>) = effect s s'"
  by (simp add: effect_def all_lists_def)

lemma effect_idx_left: "effect (s\<lparr>idx := k\<rparr>) s' = effect s s'"
  by (simp add: effect_def all_lists_def)

text \<open>What the loop does is a sequence of such effects, whether it returns or throws.\<close>

lemma parse_loop_effects:
  "parse_loop props toks s = r \<Longrightarrow> effect\<^sup>*\<^sup>* s (case r of Inl (e, s') \<Rightarrow> s' | Inr s' \<Rightarrow> s')"
proof (induction props toks s arbitrary: r rule: parse_loop.induct)
  case (1 props toks s)
  show ?case
  proof (cases "idx s < length toks")
    case False
    with "1.prems" show ?thesis by (subst (asm) parse_loop.simps) auto
  next
    case True
    note lt = this
    show ?thesis
    proof (cases "step props toks s (toks ! idx s)")
      case (Inl e)
      with lt "1.prems" show ?thesis by (subst (asm) parse_loop.simps) auto
    next
      case (Inr f)
      show ?thesis
      proof (cases f)
        case (Break s')
        with Inr lt "1.prems" have "r = Inr s'" by (subst (asm) parse_loop.simps) auto
        moreover from step_effect[OF Inr] Break have "effect s s'" by simp
        ultimately show ?thesis by auto
      next
        case (Next s')
        with Inr lt "1.prems" have r: "parse_loop props toks (s'\<lparr>idx := idx s' + 1\<rparr>) = r"
          by (subst (asm) parse_loop.simps) auto
        from step_effect[OF Inr] Next have e: "effect s (s'\<lparr>idx := idx s' + 1\<rparr>)" by simp
        from "1.IH"[OF lt Inr Next r] e show ?thesis
          by (meson converse_rtranclp_into_rtranclp)
      qed
    qed
  qed
qed

lemma parse_loop_final: "effect\<^sup>*\<^sup>* s (final (parse_loop props toks s))"
  using parse_loop_effects[of props toks s, OF refl] by (simp add: final_def)

lemma effects_lists:
  "effect\<^sup>*\<^sup>* s s' \<Longrightarrow>
   \<exists>new g. all_lists s' = all_lists s @ new \<and> (\<forall>ds\<in>set new. \<exists>r. ds = globDecs s @ r) \<and>
           globDecs s' = globDecs s @ g"
proof (induction rule: rtranclp_induct)
  case base
  show ?case by simp
next
  case (step y z)
  from step.IH obtain new g where
    y: "all_lists y = all_lists s @ new" "\<forall>ds\<in>set new. \<exists>r. ds = globDecs s @ r"
       "globDecs y = globDecs s @ g"
    by blast
  from step.hyps(2) have g: "\<exists>h. globDecs z = globDecs y @ h"
    by (auto simp: effect_def)
  from step.hyps(2) consider "all_lists z = all_lists y"
    | "all_lists z = all_lists y @ [globDecs y @ groupDecs y @ decs y]"
    by (auto simp: effect_def)
  then show ?case
  proof cases
    case 1
    with y g show ?thesis by auto
  next
    case 2
    have "all_lists z = all_lists s @ (new @ [globDecs s @ (g @ groupDecs y @ decs y)])"
      using 2 y by simp
    moreover have "\<forall>ds\<in>set (new @ [globDecs s @ (g @ groupDecs y @ decs y)]). \<exists>r. ds = globDecs s @ r"
      using y(2) by auto
    ultimately show ?thesis using g y(3) by (metis append.assoc)
  qed
qed

text \<open>
  The invariant of the parser: the objects in the buffers are distinct and allocated, so
  are the objects of every page, and no page holds a pending local decorator.
\<close>

definition buffers :: "PState \<Rightarrow> Dec list" where
  "buffers s = globDecs s @ groupDecs s @ decs s"

definition unique :: "Dec list \<Rightarrow> bool" where
  "unique ds \<longleftrightarrow> distinct ds \<and> inj_on ident (set ds)"

definition inv :: "PState \<Rightarrow> bool" where
  "inv s \<longleftrightarrow>
     unique (buffers s) \<and> (\<forall>d\<in>set (buffers s). ident d < fresh s) \<and>
     (\<forall>ds\<in>set (all_lists s). unique ds \<and> (\<forall>d\<in>set ds. ident d < fresh s)) \<and>
     (\<forall>d\<in>set (decs s). \<forall>ds\<in>set (all_lists s). ident d \<notin> ident ` set ds)"

lemma unique_distinct: "unique ds = distinct (map ident ds)"
  by (simp add: unique_def distinct_map)

lemma unique_sub: "unique (xs @ ys @ zs) \<Longrightarrow> unique (xs @ zs) \<and> unique (xs @ ys)"
  by (auto simp: unique_def inj_on_def)

lemma fresh_notin:
  assumes "\<forall>x\<in>set xs. ident x < n" and "ident d = n"
  shows "d \<notin> set xs" and "\<forall>x\<in>set xs. ident x \<noteq> ident d"
  using assms by fastforce+

lemma unique_insert:
  assumes "unique (xs @ ys)" and "d \<notin> set (xs @ ys)" and "\<forall>x\<in>set (xs @ ys). ident x \<noteq> ident d"
  shows "unique (xs @ [d] @ ys)"
proof -
  have "distinct (xs @ [d] @ ys)" using assms(1,2) by (simp add: unique_def)
  moreover have "inj_on ident (insert d (set (xs @ ys)))"
    using assms(1,3) unfolding unique_def inj_on_def by (metis insert_iff)
  ultimately show ?thesis by (simp add: unique_def)
qed

lemma unique_snoc:
  "unique xs \<Longrightarrow> \<forall>x\<in>set xs. ident x < n \<Longrightarrow> ident d = n \<Longrightarrow> unique (xs @ [d])"
  using unique_insert[of xs "[]" d] fresh_notin[of xs n d] by simp

lemma unique_mid:
  "unique (xs @ ys @ zs) \<Longrightarrow> \<forall>x\<in>set (xs @ ys @ zs). ident x < n \<Longrightarrow> ident d = n \<Longrightarrow>
   unique (xs @ [d] @ ys @ zs)"
  using unique_insert[of xs "ys @ zs" d] fresh_notin[of "xs @ ys @ zs" n d] by simp

lemma effect_inv:
  assumes "inv s" and "effect s s'"
  shows "inv s'"
proof -
  from assms(1) have
    u: "unique (globDecs s @ groupDecs s @ decs s)" and
    b: "\<forall>d\<in>set (globDecs s @ groupDecs s @ decs s). ident d < fresh s" and
    l: "\<forall>ds\<in>set (all_lists s). unique ds \<and> (\<forall>d\<in>set ds. ident d < fresh s)" and
    p: "\<forall>d\<in>set (decs s). \<forall>ds\<in>set (all_lists s). ident d \<notin> ident ` set ds"
    by (simp_all add: inv_def buffers_def)
  from assms(2) consider
      (same) "all_lists s' = all_lists s" "fresh s' = fresh s" "globDecs s' = globDecs s"
             "decs s' = decs s" "groupDecs s' = groupDecs s"
    | (close) "all_lists s' = all_lists s" "fresh s' = fresh s" "globDecs s' = globDecs s"
             "decs s' = decs s" "groupDecs s' = []"
    | (group) "all_lists s' = all_lists s" "fresh s' = fresh s" "globDecs s' = globDecs s"
             "groupDecs s' = decs s" "decs s' = []"
    | (glob) d where "ident d = fresh s" "all_lists s' = all_lists s" "fresh s' = fresh s + 1"
             "groupDecs s' = groupDecs s" "globDecs s' = globDecs s @ [d]" "decs s' = decs s"
    | (local) d where "ident d = fresh s" "all_lists s' = all_lists s" "fresh s' = fresh s + 1"
             "groupDecs s' = groupDecs s" "globDecs s' = globDecs s" "decs s' = decs s @ [d]"
    | (page) "all_lists s' = all_lists s @ [globDecs s @ groupDecs s @ decs s]" "fresh s' = fresh s"
             "globDecs s' = globDecs s" "groupDecs s' = groupDecs s" "decs s' = []"
    unfolding effect_def by blast
  then show ?thesis
  proof cases
    case same
    with u b l p show ?thesis by (simp add: inv_def buffers_def)
  next
    case close
    with unique_sub[OF u] b l p show ?thesis by (auto simp: inv_def buffers_def)
  next
    case group
    with unique_sub[OF u] b l p show ?thesis by (auto simp: inv_def buffers_def)
  next
    case glob
    have "unique ((globDecs s @ [d]) @ groupDecs s @ decs s)"
      using unique_mid[OF u b glob(1)] by simp
    moreover have "\<forall>ds\<in>set (all_lists s). unique ds \<and> (\<forall>d\<in>set ds. ident d < fresh s + 1)"
      using l by (fastforce simp: less_Suc_eq)
    moreover have "\<forall>x\<in>set ((globDecs s @ [d]) @ groupDecs s @ decs s). ident x < fresh s + 1"
      using b glob(1) by (simp add: less_Suc_eq ball_Un)
    ultimately show ?thesis using glob p by (simp add: inv_def buffers_def)
  next
    case local
    have "unique (globDecs s @ groupDecs s @ decs s @ [d])"
      using unique_snoc[OF u b local(1)] by simp
    moreover have "\<forall>ds\<in>set (all_lists s). unique ds \<and> (\<forall>d\<in>set ds. ident d < fresh s + 1)"
      using l by (fastforce simp: less_Suc_eq)
    moreover have "\<forall>x\<in>set (globDecs s @ groupDecs s @ decs s @ [d]). ident x < fresh s + 1"
      using b local(1) by (simp add: less_Suc_eq ball_Un)
    moreover have "\<forall>x\<in>set (decs s @ [d]). \<forall>ds\<in>set (all_lists s). ident x \<notin> ident ` set ds"
      using p l local(1) by fastforce
    ultimately show ?thesis using local by (simp add: inv_def buffers_def)
  next
    case page
    with unique_sub[OF u] u b l p show ?thesis by (auto simp: inv_def buffers_def)
  qed
qed

lemma effects_inv: "effect\<^sup>*\<^sup>* s s' \<Longrightarrow> inv s \<Longrightarrow> inv s'"
  by (induction rule: rtranclp_induct) (auto intro: effect_inv)

lemma parse_loop_next:
  "idx s < length toks \<Longrightarrow> step props toks s (toks ! idx s) = Inr (Next s') \<Longrightarrow>
   parse_loop props toks s = parse_loop props toks (s'\<lparr>idx := idx s' + 1\<rparr>)"
  by (subst parse_loop.simps) simp

text \<open>
  C4: in \<open>(n){[p]{} %%a [q]{} [r]{}}\<close> the page \<open>p\<close>, declared before \<open>%%a\<close>, has no
  decorator; the pages \<open>q\<close> and \<open>r\<close>, declared after it, have \<open>a\<close>.
\<close>

theorem pages_before_global:
  "summary (add (new_Source ''(input)'' ''(n){[p]{} %%a [q]{} [r]{}}'') None new_Pages)
     = Some [(''n'', [(''p'', []), (''q'', [(0, ''a'')]), (''r'', [(0, ''a'')])])]"
  by code_simp

text \<open>
  C4 (as amended): a declaration that begins with \<open>%%\<close>, read inside a namespace, puts
  its decorator (the new object, with the location of the declaration and the name that
  follows the markers) at the end of the global buffer and leaves the other buffers as
  they are; from then on, in the same call,
  every page that is opened has the decorator in its list, and the lists of the pages
  opened before the declaration stay as they are and do not hold it.
\<close>

theorem global_declaration_reach:
  assumes "inv s" and "pstate s = NamespaceBody" and "nss s \<noteq> []"
      and "idx s < length toks" and "t_val (toks ! idx s) = ''%''"
      and "tok toks (idx s + 1) = Inr t1" and "t_val t1 = ''%''"
      and "step props toks s (toks ! idx s) = Inr (Next s1)"
  shows "\<exists>d new. globDecs s1 = globDecs s @ [d] \<and> decs s1 = decs s \<and> groupDecs s1 = groupDecs s \<and>
           ident d = fresh s \<and> d_loc d = t_loc (toks ! idx s) \<and>
           (\<exists>neg i3 mac i4 t4. marker ''-'' toks (idx s + 2) = Inr (neg, i3) \<and>
              marker ''!'' toks i3 = Inr (mac, i4) \<and> tok toks i4 = Inr t4 \<and> d_name d = t_val t4) \<and>
           all_lists (final (parse_loop props toks s)) = all_lists s @ new \<and>
           (\<forall>ds\<in>set new. d \<in> set ds) \<and>
           (\<forall>ds\<in>set (all_lists s). ident d \<notin> ident ` set ds)"
proof -
  have "dec_declaration toks s (toks ! idx s) = Inr s1"
    using assms(2,8) namespace_step_declaration[OF assms(3,5), of toks]
    by (cases "dec_declaration toks s (toks ! idx s)") (simp_all add: step_def)
  then obtain glb i2 neg i3 mac i4 t4 d k where
    m: "marker ''%'' toks (idx s + 1) = Inr (glb, i2)" "marker ''-'' toks i2 = Inr (neg, i3)"
       "marker ''!'' toks i3 = Inr (mac, i4)" "tok toks i4 = Inr t4" "isIdentifier t4" and
    d0: "d = new_Dec (fresh s) (t_loc (toks ! idx s)) (t_val t4) neg mac glb \<or>
         \<not> neg \<and> params toks (i4 + 2) (new_Dec (fresh s) (t_loc (toks ! idx s)) (t_val t4) neg mac glb) = Inr (k, d)" and
    s1: "s1 = push_dec glb d k s"
    by (rule dec_declaration_object)
  from d0 have d: "ident d = fresh s" "d_loc d = t_loc (toks ! idx s)" "d_name d = t_val t4"
    by (auto dest: params_ident params_fixed)
  have glb: "glb" "i2 = idx s + 2" using m(1) assms(6,7) by (simp_all add: marker_def)
  have nm: "\<exists>neg i3 mac i4 t4. marker ''-'' toks (idx s + 2) = Inr (neg, i3) \<and>
              marker ''!'' toks i3 = Inr (mac, i4) \<and> tok toks i4 = Inr t4 \<and> d_name d = t_val t4"
    using m(2,3,4) d(3) unfolding glb(2) by blast
  from s1 glb(1) have g: "globDecs s1 = globDecs s @ [d]" "decs s1 = decs s" "groupDecs s1 = groupDecs s"
    and l1: "all_lists s1 = all_lists s"
    by (simp_all add: push_dec_def all_lists_def)
  let ?s2 = "s1\<lparr>idx := idx s1 + 1\<rparr>"
  have loop: "parse_loop props toks s = parse_loop props toks ?s2"
    by (rule parse_loop_next[OF assms(4,8)])
  from effects_lists[OF parse_loop_final, of props toks ?s2] obtain new where
    n: "all_lists (final (parse_loop props toks ?s2)) = all_lists ?s2 @ new"
       "\<forall>ds\<in>set new. \<exists>r. ds = globDecs ?s2 @ r"
    by blast
  have 1: "all_lists (final (parse_loop props toks s)) = all_lists s @ new"
    unfolding loop n(1) using l1 by (simp add: all_lists_def)
  have 2: "\<forall>ds\<in>set new. d \<in> set ds"
    using n(2) g(1) by auto
  from assms(1) have "\<forall>ds\<in>set (all_lists s). \<forall>x\<in>set ds. ident x < fresh s"
    by (simp add: inv_def)
  then have 3: "\<forall>ds\<in>set (all_lists s). ident d \<notin> ident ` set ds"
    using d(1) by fastforce
  from g d(1,2) nm 1 2 3 show ?thesis by blast
qed

text \<open>
  \<open>%%b [q]{} [r]{}\<close> read after a page \<open>p\<close> that holds the global decorator \<open>a\<close>: the
  lists of \<open>q\<close> and \<open>r\<close> hold \<open>b\<close>, the list of \<open>p\<close> does not.
\<close>

theorem global_declaration_reach_witness:
  "(\<exists>d new. globDecs declared = globDecs after_first_page @ [d] \<and> decs declared = decs after_first_page \<and>
       groupDecs declared = groupDecs after_first_page \<and>
       ident d = fresh after_first_page \<and> d_loc d = t_loc (global_then_pages ! idx after_first_page) \<and>
       (\<exists>neg i3 mac i4 t4. marker ''-'' global_then_pages (idx after_first_page + 2) = Inr (neg, i3) \<and>
          marker ''!'' global_then_pages i3 = Inr (mac, i4) \<and> tok global_then_pages i4 = Inr t4 \<and>
          d_name d = t_val t4) \<and>
       all_lists (final (parse_loop None global_then_pages after_first_page)) = all_lists after_first_page @ new \<and>
       (\<forall>ds\<in>set new. d \<in> set ds) \<and>
       (\<forall>ds\<in>set (all_lists after_first_page). ident d \<notin> ident ` set ds)) \<and>
   map (map dec_summary) (all_lists (final (parse_loop None global_then_pages after_first_page)))
     = [[(0, ''a'')], [(0, ''a''), (1, ''b'')], [(0, ''a''), (1, ''b'')]]"
proof -
  have i: "inv after_first_page"
    by (simp add: inv_def buffers_def unique_def all_lists_def after_first_page_def page_with_def
                  plain_def new_Dec_def flag_def)
  have len: "length global_then_pages = 10" unfolding global_then_pages_def by code_simp
  have v: "t_val (global_then_pages ! 0) = ''%''" "t_val (global_then_pages ! 1) = ''%''"
    unfolding global_then_pages_def by code_simp+
  have st: "step None global_then_pages after_first_page (global_then_pages ! 0) = Inr (Next declared)"
    unfolding global_then_pages_def declared_def by code_simp
  have h: "pstate after_first_page = NamespaceBody" "nss after_first_page \<noteq> []"
          "idx after_first_page < length global_then_pages"
          "t_val (global_then_pages ! idx after_first_page) = ''%''"
          "tok global_then_pages (idx after_first_page + 1) = Inr (global_then_pages ! 1)"
          "t_val (global_then_pages ! 1) = ''%''"
          "step None global_then_pages after_first_page (global_then_pages ! idx after_first_page) = Inr (Next declared)"
    using v st by (simp_all add: after_first_page_def len tok_def)
  have "map (map dec_summary) (all_lists (final (parse_loop None global_then_pages after_first_page)))
     = [[(0, ''a'')], [(0, ''a''), (1, ''b'')], [(0, ''a''), (1, ''b'')]]"
    by code_simp
  with global_declaration_reach [OF i h] show ?thesis by blast
qed

section \<open>Closing a group or a namespace\<close>

text \<open>
  C5 (as amended): a \<open>}\<close> in a namespace body empties the group buffer if a group is open
  and closes the namespace otherwise; in both cases the local and the global buffer keep
  their contents. Nothing is emptied when a namespace closes.
\<close>

theorem close_brace_buffers:
  assumes "pstate s = NamespaceBody" and "nss s \<noteq> []" and "t_val token = ''}''"
  shows "\<exists>s'. step props toks s token = Inr (Next s') \<and>
           decs s' = decs s \<and> globDecs s' = globDecs s \<and> groupDecs s' = [] \<and> nss s' = nss s \<and>
           pstate s' = (if groupDecs s \<noteq> [] then NamespaceBody else Top)"
  using assms by (simp add: step_def namespace_step_def close_brace_def)


theorem close_brace_buffers_witness:
  "\<exists>s'. step None [closing] (in_namespace\<lparr>groupDecs := []\<rparr>) closing = Inr (Next s') \<and>
      decs s' = [plain 2 ''c''] \<and> globDecs s' = [plain 0 ''a''] \<and> groupDecs s' = [] \<and> pstate s' = Top"
proof -
  have "pstate (in_namespace\<lparr>groupDecs := []\<rparr>) = NamespaceBody" "nss (in_namespace\<lparr>groupDecs := []\<rparr>) \<noteq> []"
       "t_val closing = ''}''"
    by (simp_all add: in_namespace_def closing_def new_Token_def)
  from close_brace_buffers [OF this, of None "[closing]"] show ?thesis
    by (auto simp: in_namespace_def)
qed

text \<open>
  C5: the decorators \<open>x\<close> (global) and \<open>y\<close> (local) are left in the buffers when the
  namespace \<open>a\<close> closes, and the page \<open>p\<close> of the later namespace \<open>b\<close> gets both.
\<close>

theorem buffers_cross_namespaces:
  "summary (add (new_Source ''(input)'' ''(a){%%x %y} (b){[p]{}}'') None new_Pages)
     = Some [(''a'', []), (''b'', [(''p'', [(0, ''x''), (1, ''y'')])])]"
  by code_simp

section \<open>Decorator objects and pages\<close>

text \<open>
  C6: in \<open>(n){%%a [p]{} [q]{}}\<close> the lists of \<open>p\<close> and \<open>q\<close> hold the same object, number 0.
\<close>

theorem global_decorator_shared:
  "summary (add (new_Source ''(input)'' ''(n){%%a [p]{} [q]{}}'') None new_Pages)
     = Some [(''n'', [(''p'', [(0, ''a'')]), (''q'', [(0, ''a'')])])]"
  by code_simp

lemma effect_summary:
  assumes "effect y z"
  shows "fresh y \<le> fresh z"
    and "\<forall>x\<in>set (buffers z). x \<in> set (buffers y) \<or> ident x = fresh y"
    and "all_lists z = all_lists y \<or> all_lists z = all_lists y @ [buffers y]"
  using assms unfolding effect_def buffers_def by (elim disjE exE conjE; simp; blast)+

lemma effects_origin:
  "effect\<^sup>*\<^sup>* s s' \<Longrightarrow>
   \<exists>new. all_lists s' = all_lists s @ new \<and>
         (\<forall>ds\<in>set new. \<forall>x\<in>set ds. ident x \<in> ident ` set (buffers s) \<or> fresh s \<le> ident x) \<and>
         (\<forall>x\<in>set (buffers s'). ident x \<in> ident ` set (buffers s) \<or> fresh s \<le> ident x) \<and>
         fresh s \<le> fresh s'"
proof (induction rule: rtranclp_induct)
  case base
  show ?case by simp
next
  case (step y z)
  from step.IH obtain new where
    y: "all_lists y = all_lists s @ new"
       "\<forall>ds\<in>set new. \<forall>x\<in>set ds. ident x \<in> ident ` set (buffers s) \<or> fresh s \<le> ident x"
       "\<forall>x\<in>set (buffers y). ident x \<in> ident ` set (buffers s) \<or> fresh s \<le> ident x"
       "fresh s \<le> fresh y"
    by blast
  note e = effect_summary[OF step.hyps(2)]
  have b: "\<forall>x\<in>set (buffers z). ident x \<in> ident ` set (buffers s) \<or> fresh s \<le> ident x"
  proof
    fix x assume "x \<in> set (buffers z)"
    with e(2) have "x \<in> set (buffers y) \<or> ident x = fresh y" by blast
    with y(3,4) show "ident x \<in> ident ` set (buffers s) \<or> fresh s \<le> ident x" by auto
  qed
  have f: "fresh s \<le> fresh z" using y(4) e(1) by simp
  from e(3) show ?case
  proof
    assume "all_lists z = all_lists y"
    with y b f show ?thesis by auto
  next
    assume "all_lists z = all_lists y @ [buffers y]"
    then have "all_lists z = all_lists s @ (new @ [buffers y])" using y(1) by simp
    moreover have "\<forall>ds\<in>set (new @ [buffers y]). \<forall>x\<in>set ds.
                     ident x \<in> ident ` set (buffers s) \<or> fresh s \<le> ident x"
      using y(2,3) by auto
    ultimately show ?thesis using b f by blast
  qed
qed

text \<open>
  C6 (as amended): when the parser opens a page, each decorator in the local buffer goes
  into the list of that page and is in the list of no other page, neither of one opened
  before nor of one opened later in the call. (The global and group decorators of the
  page are the objects that the other pages get too.)
\<close>

theorem local_decorator_one_page:
  assumes "inv s" and "pstate s = NamespaceBody" and "nss s \<noteq> []"
      and "idx s < length toks" and "isPage (toks ! idx s)"
      and "tok toks (idx s + 1) = Inr nxt" and "t_val nxt = ''{''"
      and "d \<in> set (decs s)"
  shows "\<exists>after. all_lists (final (parse_loop props toks s)) =
                    all_lists s @ [globDecs s @ groupDecs s @ decs s] @ after \<and>
                 (\<forall>ds\<in>set (all_lists s @ after). ident d \<notin> ident ` set ds)"
proof -
  let ?page = "\<lparr>p_loc = t_loc (toks ! idx s), p_name = slice1 (t_val (toks ! idx s)), p_path = None,
                p_props = [], decorators = globDecs s @ groupDecs s @ decs s\<rparr>"
  let ?s1 = "s\<lparr>idx := idx s + 1, pstate := PageBody,
               nss := upd_last (\<lambda>n. n\<lparr>pages := pages n @ [?page]\<rparr>) (nss s), decs := []\<rparr>"
  have "namespace_step toks s (toks ! idx s) = open_page toks s (toks ! idx s)"
    using assms(3,5) isPage_not_close[OF assms(5)] isPage_not_identifier[OF assms(5)]
    by (simp add: namespace_step_def)
  then have st: "step props toks s (toks ! idx s) = Inr (Next ?s1)"
    using assms(2,6,7) by (simp add: step_def open_page_def)
  let ?s2 = "?s1\<lparr>idx := idx ?s1 + 1\<rparr>"
  have loop: "parse_loop props toks s = parse_loop props toks ?s2"
    by (rule parse_loop_next[OF assms(4) st])
  have l2: "all_lists ?s2 = all_lists s @ [globDecs s @ groupDecs s @ decs s]"
    using assms(3) by (simp add: all_lists_def concat_pages_upd_last_snoc)
  have b2: "buffers ?s2 = globDecs s @ groupDecs s" "fresh ?s2 = fresh s"
    by (simp_all add: buffers_def)
  from effects_origin[OF parse_loop_final, of props toks ?s2] obtain new where
    n: "all_lists (final (parse_loop props toks ?s2)) = all_lists ?s2 @ new"
       "\<forall>ds\<in>set new. \<forall>x\<in>set ds. ident x \<in> ident ` set (buffers ?s2) \<or> fresh ?s2 \<le> ident x"
    by blast
  from assms(1) have
    u: "unique (globDecs s @ groupDecs s @ decs s)" and
    b: "\<forall>x\<in>set (globDecs s @ groupDecs s @ decs s). ident x < fresh s" and
    p: "\<forall>x\<in>set (decs s). \<forall>ds\<in>set (all_lists s). ident x \<notin> ident ` set ds"
    by (simp_all add: inv_def buffers_def)
  have d1: "ident d < fresh s" using b assms(8) by simp
  have d2: "ident d \<notin> ident ` set (globDecs s @ groupDecs s)"
  proof
    assume "ident d \<in> ident ` set (globDecs s @ groupDecs s)"
    then obtain x where x: "x \<in> set (globDecs s @ groupDecs s)" "ident x = ident d"
      by (metis imageE)
    have inj: "inj_on ident (set (globDecs s @ groupDecs s @ decs s))"
      using u by (simp add: unique_def)
    have xin: "x \<in> set (globDecs s @ groupDecs s @ decs s)" using x(1) by auto
    have din: "d \<in> set (globDecs s @ groupDecs s @ decs s)" using assms(8) by simp
    have "x = d" by (rule inj_onD[OF inj x(2) xin din])
    moreover have "distinct ((globDecs s @ groupDecs s) @ decs s)" using u by (simp add: unique_def)
    then have "set (globDecs s @ groupDecs s) \<inter> set (decs s) = {}"
      by (simp only: distinct_append)
    ultimately show False using x(1) assms(8) by blast
  qed
  have "\<forall>ds\<in>set new. ident d \<notin> ident ` set ds"
  proof (intro ballI notI)
    fix ds assume ds: "ds \<in> set new" and "ident d \<in> ident ` set ds"
    then obtain x where x: "x \<in> set ds" "ident x = ident d" by (metis imageE)
    have "ident x \<in> ident ` set (buffers ?s2) \<or> fresh ?s2 \<le> ident x"
      using n(2) ds x(1) by blast
    then have "ident d \<in> ident ` set (globDecs s @ groupDecs s) \<or> fresh s \<le> ident d"
      unfolding b2 x(2) .
    with d1 d2 show False by simp
  qed
  moreover have "\<forall>ds\<in>set (all_lists s). ident d \<notin> ident ` set ds" using p assms(8) by blast
  ultimately have "\<forall>ds\<in>set (all_lists s @ new). ident d \<notin> ident ` set ds" by auto
  moreover have "all_lists (final (parse_loop props toks s)) =
                   all_lists s @ [globDecs s @ groupDecs s @ decs s] @ new"
    unfolding loop n(1) l2 by simp
  ultimately show ?thesis by blast
qed

theorem local_decorator_one_page_witness:
  "(\<exists>after. all_lists (final (parse_loop None two_pages in_namespace)) =
              all_lists in_namespace @
                [globDecs in_namespace @ groupDecs in_namespace @ decs in_namespace] @ after \<and>
            (\<forall>ds\<in>set (all_lists in_namespace @ after). ident (plain 2 ''c'') \<notin> ident ` set ds)) \<and>
   map (map ident) (all_lists (final (parse_loop None two_pages in_namespace))) = [[0, 1, 2], [0, 1]]"
proof -
  have i: "inv in_namespace"
    by (simp add: inv_def buffers_def unique_def all_lists_def in_namespace_def plain_def new_Dec_def flag_def)
  have h: "pstate in_namespace = NamespaceBody" "nss in_namespace \<noteq> []"
          "idx in_namespace < length two_pages" "isPage (two_pages ! idx in_namespace)"
          "tok two_pages (idx in_namespace + 1) = Inr brace" "t_val brace = ''{''"
          "plain 2 ''c'' \<in> set (decs in_namespace)"
    by (simp_all add: in_namespace_def two_pages_def header_def brace_def new_Token_def isPage_def
                      startsWith_def endsWith_def tok_def)
  have "map (map ident) (all_lists (final (parse_loop None two_pages in_namespace))) = [[0, 1, 2], [0, 1]]"
    by code_simp
  with local_decorator_one_page [OF i h, of None] show ?thesis by blast
qed

definition wf_pages :: "Pages \<Rightarrow> bool" where
  "wf_pages this \<longleftrightarrow>
     (\<forall>ns\<in>set (namespaces this). \<forall>p\<in>set (pages ns).
        distinct (map ident (decorators p)) \<and> (\<forall>d\<in>set (decorators p). ident d < next_ident this))"

lemma inv_lists:
  "inv s \<Longrightarrow> \<forall>ns\<in>set (nss s). \<forall>p\<in>set (pages ns).
      distinct (map ident (decorators p)) \<and> (\<forall>d\<in>set (decorators p). ident d < fresh s)"
  by (simp add: inv_def all_lists_def unique_distinct)

lemma wf_pages_inv:
  assumes "wf_pages this"
  shows "inv \<lparr>pstate = Top, idx = 0, decs = [], groupDecs = [], globDecs = [],
               nss = namespaces this, fresh = next_ident this\<rparr>"
  using assms by (simp add: wf_pages_def inv_def buffers_def all_lists_def unique_distinct unique_def)

text \<open>
  Every page that \<open>add\<close> makes or finds has distinct decorator objects, all allocated
  before the next one: the condition under which the macro pass was described.
\<close>

lemma parse_wf_pages:
  assumes "wf_pages this"
  shows "wf_pages (after (parse props toks this))"
proof -
  let ?s0 = "\<lparr>pstate = Top, idx = 0, decs = [], groupDecs = [], globDecs = [],
              nss = namespaces this, fresh = next_ident this\<rparr>"
  let ?f = "final (parse_loop props toks ?s0)"
  have "inv ?f" by (rule effects_inv[OF parse_loop_final wf_pages_inv[OF assms]])
  moreover have "after (parse props toks this) = this\<lparr>namespaces := nss ?f, next_ident := fresh ?f\<rparr>"
    by (simp add: parse_def after_def final_def split: sum.splits prod.splits)
  ultimately show ?thesis using inv_lists[of ?f] by (simp add: wf_pages_def)
qed

lemma add_wf_pages: "wf_pages this \<Longrightarrow> wf_pages (after (add source props this))"
  by (simp add: add_def parse_wf_pages)

lemma wf_new_Pages: "wf_pages new_Pages"
  by (simp add: wf_pages_def new_Pages_def)

section \<open>A page without decorators\<close>

text \<open>
  C7: in \<^verbatim>\<open>(a){%y} (b){[p]{@"x"}}\<close> no decorator is declared in the namespace \<open>b\<close>, and
  the page \<open>p\<close> gets the decorator \<open>y\<close> that the namespace \<open>a\<close> left in the local buffer.
  With a library that has \<open>y\<close>, \<open>build\<close> returns and the properties of \<open>p\<close> are no
  longer empty.
\<close>

theorem leaked_decorator_page:
  "thrown (run ''(a){%y} (b){[p]{@\"x\"}}'' (use marking new_Pages)) = None \<and>
   map page_state (all_pages (namespaces (after (run ''(a){%y} (b){[p]{@\"x\"}}'' (use marking new_Pages)))))
     = [(''p'', Some ''x'', [(''y'', VNum 0)], [])]"
  by code_simp

text \<open>Without a library the same text makes \<open>build\<close> throw at the page \<open>p\<close>.\<close>

lemma leaked_decorator_unknown:
  "thrown (run ''(a){%y} (b){[p]{@\"x\"}}'' new_Pages)
     = Some (EvalError \<lparr>src = new_Source ''(input)'' ''(a){%y} (b){[p]{@\"x\"}}'',
                         col = 4, row = 0, len = 1\<rparr> ''Unknown decorator `y`'')"
  by code_simp

lemma cancellation_Nil [simp]: "cancellation [] = Inr []"
  unfolding cancellation_def by (subst cancel_outer.simps) simp

text \<open>Resolution returns for a page with an empty list and changes nothing.\<close>

lemma resolve_page_plain:
  "decorators page = [] \<Longrightarrow> resolve_page this (page, n) = Return (page, n)"
  by (simp add: resolve_page_def)

lemma identifier_char_simps [simp]:
  "\<not> identifier_char (CHR ''['')" "\<not> identifier_char (CHR ''@'')" "\<not> identifier_char (CHR ''('')"
  "\<not> identifier_char (CHR ''%'')" "\<not> identifier_char (CHR ''{'')" "\<not> identifier_char (CHR ''}'')"
  "\<not> identifier_char (CHR ''<'')" "\<not> identifier_char (CHR ''>'')" "\<not> identifier_char (CHR ''='')"
  "\<not> identifier_char (CHR ''!'')" "\<not> identifier_char (CHR 0x22)" "\<not> identifier_char (CHR '' '')"
  by (simp_all add: identifier_char_def)

text \<open>
  The pages that the parser has finished with: all of them, but for the page that is open
  in the state \<open>Page\<close>. No turn of the loop changes a page that is settled.
\<close>

definition settled :: "PState \<Rightarrow> Page list" where
  "settled s = (if pstate s = PageBody then butlast (all_pages (nss s)) else all_pages (nss s))"

lemma all_pages_upd_props:
  "(\<And>n. pages (f n) = pages n) \<Longrightarrow> all_pages (upd_last f ns) = all_pages ns"
  by (simp add: all_pages_def map_pages_upd_last)

lemma all_pages_open:
  "ns \<noteq> [] \<Longrightarrow> all_pages (upd_last (\<lambda>n. n\<lparr>pages := pages n @ [p]\<rparr>) ns) = all_pages ns @ [p]"
  by (simp add: all_pages_def concat_pages_upd_last_snoc)

lemma all_pages_upd_page:
  assumes "ns \<noteq> []" and "pages (last ns) \<noteq> []"
  shows "all_pages (upd_page f ns) = butlast (all_pages ns) @ [f (last (all_pages ns))]"
proof -
  from assms(1) obtain ns' a where ns: "ns = ns' @ [a]" by (cases ns rule: rev_cases) auto
  with assms(2) obtain ps p where ps: "pages a = ps @ [p]" by (cases "pages a" rule: rev_cases) auto
  show ?thesis
    by (simp add: ns ps all_pages_def upd_page_def butlast_append)
qed

lemma all_pages_last:
  "ns \<noteq> [] \<Longrightarrow> pages (last ns) \<noteq> [] \<Longrightarrow> all_pages ns \<noteq> []"
  by (cases ns rule: rev_cases) (auto simp: all_pages_def)

lemma push_dec_pages [simp]:
  "nss (push_dec glb d k s) = nss s" "pstate (push_dec glb d k s) = pstate s"
  by (simp_all add: push_dec_def)

lemma namespace_step_settled:
  assumes "pstate s = NamespaceBody" and "namespace_step toks s token = Inr s'"
  shows "settled s' = settled s"
proof -
  have ne: "nss s \<noteq> []" using assms(2) by (auto simp: namespace_step_def)
  show ?thesis
  proof (cases "t_val token = ''}''")
    case True
    with assms ne show ?thesis by (auto simp: namespace_step_def close_brace_def settled_def)
  next
    case c1: False
    show ?thesis
    proof (cases "isIdentifier token")
      case True
      with assms ne c1 show ?thesis
        by (auto simp: namespace_step_def namespace_prop_def settled_def all_pages_upd_props
                 split: sum.splits if_splits)
    next
      case c2: False
      show ?thesis
      proof (cases "isPage token")
        case True
        with assms ne c1 c2 show ?thesis
          by (auto simp: namespace_step_def open_page_def settled_def all_pages_open Let_def
                   split: sum.splits if_splits)
      next
        case c3: False
        show ?thesis
        proof (cases "t_val token = ''%''")
          case True
          with assms ne c1 c2 c3 have "dec_declaration toks s token = Inr s'"
            by (simp add: namespace_step_def)
          from dec_declaration_push[OF this] obtain glb d k where "s' = push_dec glb d k s"
            by blast
          then show ?thesis by (simp add: settled_def)
        next
          case c4: False
          show ?thesis
          proof (cases "t_val token = ''{''")
            case True
            with assms ne c1 c2 c3 c4 show ?thesis
              by (auto simp: namespace_step_def open_group_def settled_def split: if_splits)
          next
            case False
            with assms ne c1 c2 c3 c4 show ?thesis by (simp add: namespace_step_def split: if_splits)
          qed
        qed
      qed
    qed
  qed
qed

lemma page_step_settled:
  assumes "pstate s = PageBody" and "page_step toks s token = Inr s'"
  shows "\<exists>new. settled s' = settled s @ new"
proof -
  have ne: "nss s \<noteq> []" "pages (last (nss s)) \<noteq> []"
    using assms(2) by (auto simp: page_step_def split: if_splits)
  note up = all_pages_upd_page[OF ne]
  show ?thesis
  proof (cases "t_val token = ''}''")
    case True
    with assms ne have "s' = s\<lparr>pstate := NamespaceBody\<rparr>" by (auto simp: page_step_def)
    moreover have "all_pages (nss s) = butlast (all_pages (nss s)) @ [last (all_pages (nss s))]"
      using all_pages_last[OF ne] by simp
    ultimately show ?thesis using assms(1) by (auto simp: settled_def)
  next
    case c1: False
    show ?thesis
    proof (cases "isIdentifier token")
      case True
      with assms ne c1 show ?thesis
        by (auto simp: page_step_def page_prop_def settled_def up split: sum.splits if_splits)
    next
      case c2: False
      show ?thesis
      proof (cases "t_val token = ''@''")
        case True
        with assms ne c1 c2 show ?thesis
          by (auto simp: page_step_def page_path_def settled_def up split: sum.splits if_splits)
      next
        case False
        with assms ne c1 c2 show ?thesis by (auto simp: page_step_def split: if_splits)
      qed
    qed
  qed
qed

lemma top_step_settled:
  "pstate s = Top \<Longrightarrow> top_step props toks s token = Inr r \<Longrightarrow>
   settled (case r of Next s' \<Rightarrow> s' | Break s' \<Rightarrow> s') = settled s"
  by (auto simp: top_step_def settled_def all_pages_def Let_def split: sum.splits if_splits)

lemma step_settled:
  assumes "step props toks s token = Inr r"
  shows "\<exists>new. settled (case r of Next s' \<Rightarrow> s' | Break s' \<Rightarrow> s') = settled s @ new"
proof (cases "pstate s")
  case Top
  with assms top_step_settled[of s props toks token r] show ?thesis by (simp add: step_def)
next
  case NamespaceBody
  with assms obtain s' where "namespace_step toks s token = Inr s'" "r = Next s'"
    by (cases "namespace_step toks s token") (auto simp: step_def)
  with namespace_step_settled[OF NamespaceBody this(1)] show ?thesis by simp
next
  case PageBody
  with assms obtain s' where "page_step toks s token = Inr s'" "r = Next s'"
    by (cases "page_step toks s token") (auto simp: step_def)
  with page_step_settled[OF PageBody this(1)] show ?thesis by simp
qed

lemma settled_idx [simp]: "settled (s\<lparr>idx := k\<rparr>) = settled s"
  by (simp add: settled_def)

lemma parse_loop_settled:
  "\<exists>new. settled (final (parse_loop props toks s)) = settled s @ new"
proof (induction props toks s rule: parse_loop.induct)
  case (1 props toks s)
  show ?case
  proof (cases "idx s < length toks")
    case False
    then have "parse_loop props toks s = Inr s" by (subst parse_loop.simps) simp
    then show ?thesis by (simp add: final_def)
  next
    case True
    note lt = this
    show ?thesis
    proof (cases "step props toks s (toks ! idx s)")
      case (Inl e)
      with lt have "parse_loop props toks s = Inl (e, s)" by (subst parse_loop.simps) simp
      then show ?thesis by (simp add: final_def)
    next
      case (Inr f)
      show ?thesis
      proof (cases f)
        case (Break s')
        with Inr lt have "parse_loop props toks s = Inr s'" by (subst parse_loop.simps) simp
        with step_settled[OF Inr] Break show ?thesis by (simp add: final_def)
      next
        case (Next s')
        with Inr lt have r: "parse_loop props toks s = parse_loop props toks (s'\<lparr>idx := idx s' + 1\<rparr>)"
          by (subst parse_loop.simps) simp
        from step_settled[OF Inr] Next obtain new1 where "settled s' = settled s @ new1" by auto
        moreover from "1.IH"[OF lt Inr Next] obtain new2 where
          "settled (final (parse_loop props toks (s'\<lparr>idx := idx s' + 1\<rparr>))) = settled s' @ new2"
          by auto
        ultimately show ?thesis unfolding r by simp
      qed
    qed
  qed
qed

lemma settled_prefix: "\<exists>r. all_pages (nss s) = settled s @ r"
proof (cases "pstate s = PageBody \<and> all_pages (nss s) \<noteq> []")
  case True
  then have "all_pages (nss s) = settled s @ [last (all_pages (nss s))]"
    by (simp add: settled_def)
  then show ?thesis ..
next
  case False
  then have "all_pages (nss s) = settled s @ []" by (auto simp: settled_def)
  then show ?thesis ..
qed

text \<open>Resolution leaves a page without decorators as it is.\<close>

definition keeps :: "Page \<Rightarrow> Page \<Rightarrow> bool" where
  "keeps p p' \<longleftrightarrow> (decorators p = [] \<longrightarrow> p' = p)"

lemma keeps_refl: "list_all2 keeps ps ps"
  by (simp add: list_all2_refl keeps_def)

lemma resolve_page_keeps: "keeps p (fst (after (resolve_page this (p, n))))"
  by (auto simp: keeps_def resolve_page_plain after_def)

lemma build_pages_keeps: "list_all2 keeps ps (fst (after (build_pages this ps n)))"
proof (induction ps arbitrary: n)
  case Nil
  show ?case by (simp add: after_def)
next
  case (Cons p ps)
  show ?case
  proof (cases "resolve_page this (p, n)")
    case (Throw e st)
    obtain p' n' where st: "st = (p', n')" by (cases st)
    from resolve_page_keeps[of p this n] Throw st have "keeps p p'" by (simp add: after_def)
    with Throw st show ?thesis by (simp add: after_def keeps_refl)
  next
    case (Return st)
    obtain p' n' where st: "st = (p', n')" by (cases st)
    from resolve_page_keeps[of p this n] Return st have k: "keeps p p'" by (simp add: after_def)
    from Cons.IH[of n'] Return st k show ?thesis
      by (cases "build_pages this ps n'") (auto simp: after_def)
  qed
qed

lemma build_namespaces_keeps:
  "list_all2 keeps (all_pages ns) (all_pages (fst (after (build_namespaces this ns n))))"
proof (induction ns arbitrary: n)
  case Nil
  show ?case by (simp add: after_def all_pages_def)
next
  case (Cons a ns)
  show ?case
  proof (cases "build_pages this (pages a) n")
    case (Throw e st)
    obtain ps n' where st: "st = (ps, n')" by (cases st)
    from build_pages_keeps[of "pages a" this n] Throw st have "list_all2 keeps (pages a) ps"
      by (simp add: after_def)
    with Throw st show ?thesis
      by (simp add: after_def all_pages_def list_all2_appendI keeps_refl)
  next
    case (Return st)
    obtain ps n' where st: "st = (ps, n')" by (cases st)
    from build_pages_keeps[of "pages a" this n] Return st have k: "list_all2 keeps (pages a) ps"
      by (simp add: after_def)
    from Cons.IH[of n'] Return st k show ?thesis
      by (cases "build_namespaces this ns n'") (auto simp: after_def all_pages_def list_all2_appendI)
  qed
qed

lemma build_keeps:
  "list_all2 keeps (all_pages (namespaces this)) (all_pages (namespaces (after (build this))))"
  using build_namespaces_keeps[of "namespaces this" this "next_ident this"]
  by (cases "build_namespaces this (namespaces this) (next_ident this)")
     (auto simp: build_def after_def)

lemma keeps_at:
  assumes "list_all2 keeps (A @ pg # rest) ys" and "decorators pg = []"
  shows "\<exists>A' rest'. ys = A' @ pg # rest' \<and> length A' = length A \<and> length rest' = length rest"
proof -
  from assms(1) obtain A' zs where ys: "ys = A' @ zs" and A: "list_all2 keeps A A'"
    and zs: "list_all2 keeps (pg # rest) zs"
    by (auto simp: list_all2_append1)
  from zs obtain pg' rest' where z: "zs = pg' # rest'" "keeps pg pg'" "list_all2 keeps rest rest'"
    by (auto simp: list_all2_Cons1)
  from z(2) assms(2) have "pg' = pg" by (simp add: keeps_def)
  with ys z(1) have "ys = A' @ pg # rest'" by simp
  moreover have "length A' = length A" "length rest' = length rest"
    using A z(3) by (simp_all add: list_all2_lengthD)
  ultimately show ?thesis by blast
qed

text \<open>
  C7 (as amended): a page \<^verbatim>\<open>[p]{@"x"}\<close> that is read inside a namespace while the three
  buffers are empty, whatever the call has read before it and reads after it. When the
  loop ends the page is there, after the pages that were there before it, with an empty
  decorator list, the path \<open>x\<close> and empty properties; and after \<open>build\<close> (without an
  output path) on the object that has these namespaces, whether it returns or throws,
  the page is at the same place and is the same, whatever implementations the registries
  hold (an implementation changes the page that it is called with).
\<close>

theorem plain_page_resolves:
  fixes s :: PState and toks :: "Token list" and pn x :: string
  defines "pg \<equiv> \<lparr>p_loc = t_loc (toks ! idx s), p_name = pn, p_path = Some x, p_props = [],
                   decorators = []\<rparr>"
  assumes "pstate s = NamespaceBody" and "nss s \<noteq> []"
      and "globDecs s = []" and "groupDecs s = []" and "decs s = []"
      and "idx s + 4 < length toks"
      and "t_val (toks ! idx s) = ''['' @ pn @ '']''"
      and "t_val (toks ! (idx s + 1)) = ''{''"
      and "t_val (toks ! (idx s + 2)) = ''@''"
      and "t_val (toks ! (idx s + 3)) = [CHR 0x22] @ x @ [CHR 0x22]"
      and "t_val (toks ! (idx s + 4)) = ''}''"
      and "namespaces this = nss (final (parse_loop props toks s))"
  shows "\<exists>rest A rest'.
           all_pages (namespaces this) = all_pages (nss s) @ pg # rest \<and>
           all_pages (namespaces (after (build this))) = A @ pg # rest' \<and>
           length A = length (all_pages (nss s)) \<and> length rest' = length rest"
proof -
  from assms(3) obtain ns' a where ns: "nss s = ns' @ [a]" by (cases "nss s" rule: rev_cases) auto
  let ?N1 = "ns' @ [a\<lparr>pages := pages a @ [pg\<lparr>p_path := None\<rparr>]\<rparr>]"
  let ?N2 = "ns' @ [a\<lparr>pages := pages a @ [pg]\<rparr>]"
  let ?u1 = "s\<lparr>idx := idx s + 2, pstate := PageBody, nss := ?N1, decs := []\<rparr>"
  let ?u2 = "s\<lparr>idx := idx s + 4, pstate := PageBody, nss := ?N2, decs := []\<rparr>"
  let ?u3 = "s\<lparr>idx := idx s + 5, nss := ?N2, decs := []\<rparr>"
  let ?s1 = "s\<lparr>idx := idx s + 1, pstate := PageBody, nss := ?N1, decs := []\<rparr>"
  let ?s2 = "s\<lparr>idx := idx s + 3, pstate := PageBody, nss := ?N2, decs := []\<rparr>"
  have p0: "isPage (toks ! idx s)"
    using assms(8) by (simp add: isPage_def startsWith_def endsWith_def)
  have lt: "idx s < length toks" "idx s + 1 < length toks" "idx s + 2 < length toks"
           "idx s + 3 < length toks"
    using assms(7) by simp_all
  have "namespace_step toks s (toks ! idx s) = open_page toks s (toks ! idx s)"
    using assms(3) isPage_not_close[OF p0] isPage_not_identifier[OF p0] p0
    by (simp add: namespace_step_def)
  then have st1: "step props toks s (toks ! idx s) = Inr (Next ?s1)"
    using assms(2,4,5,6,8,9) lt
    by (simp add: step_def open_page_def tok_def slice1_def ns pg_def)
  have e1: "?s1\<lparr>idx := idx ?s1 + 1\<rparr> = ?u1" by (rule PState.equality) simp_all
  have l1: "parse_loop props toks s = parse_loop props toks ?u1"
    using parse_loop_next[OF lt(1) st1] unfolding e1 .
  have i1: "idx ?u1 = idx s + 2" by simp
  have ar: "Suc (Suc (Suc (idx s))) = idx s + 3" "Suc (idx s + 3) = idx s + 4"
           "Suc (idx s + 4) = idx s + 5"
    by arith+
  have st2: "step props toks ?u1 (toks ! (idx s + 2)) = Inr (Next ?s2)"
    using assms(10,11) lt
    by (simp add: step_def page_step_def page_path_def isIdentifier_def isString_def startsWith_def
                  endsWith_def slice1_def tok_def upd_page_def pg_def ar)
  have e2: "?s2\<lparr>idx := idx ?s2 + 1\<rparr> = ?u2" by (rule PState.equality) (simp_all add: ar)
  have l2: "parse_loop props toks ?u1 = parse_loop props toks ?u2"
    using parse_loop_next[of ?u1 toks props ?s2, unfolded i1, OF lt(3) st2] unfolding e2 .
  have i2: "idx ?u2 = idx s + 4" by simp
  have st3: "step props toks ?u2 (toks ! (idx s + 4)) = Inr (Next (?u2\<lparr>pstate := NamespaceBody\<rparr>))"
    using assms(12) by (simp add: step_def page_step_def)
  have e3: "?u2\<lparr>pstate := NamespaceBody\<rparr>\<lparr>idx := idx (?u2\<lparr>pstate := NamespaceBody\<rparr>) + 1\<rparr> = ?u3"
    using assms(2) by (intro PState.equality) (simp_all add: ar)
  have l3: "parse_loop props toks ?u2 = parse_loop props toks ?u3"
    using parse_loop_next[of ?u2 toks props "?u2\<lparr>pstate := NamespaceBody\<rparr>", unfolded i2, OF assms(7) st3]
    unfolding e3 .
  have loop: "parse_loop props toks s = parse_loop props toks ?u3"
    using l1 l2 l3 by simp
  have pages3: "settled ?u3 = all_pages (nss s) @ [pg]"
    using assms(2) by (simp add: settled_def all_pages_def ns)
  from parse_loop_settled[of props toks ?u3] obtain new where
    "settled (final (parse_loop props toks ?u3)) = settled ?u3 @ new" ..
  moreover from settled_prefix[of "final (parse_loop props toks ?u3)"] obtain r where
    "all_pages (nss (final (parse_loop props toks ?u3))) = settled (final (parse_loop props toks ?u3)) @ r" ..
  ultimately have 1: "all_pages (namespaces this) = all_pages (nss s) @ pg # (new @ r)"
    unfolding assms(13) loop pages3 by simp
  have "decorators pg = []" by (simp add: pg_def)
  from keeps_at[OF build_keeps[of this, unfolded 1] this] 1 show ?thesis by blast
qed

text \<open>
  The tokens of \<^verbatim>\<open>[p]{@"x"} %y [q]{}}\<close> read after three pages, two of them decorated:
  \<open>build\<close> calls the decorators of the other pages and leaves \<open>p\<close> as it was declared.
\<close>

theorem plain_page_resolves_witness:
  "(\<exists>rest A rest'.
      all_pages (namespaces parsed) =
        all_pages (nss between_pages) @
        \<lparr>p_loc = t_loc (plain_then_decorated ! idx between_pages), p_name = ''p'', p_path = Some ''x'',
          p_props = [], decorators = []\<rparr> # rest \<and>
      all_pages (namespaces (after (build parsed))) =
        A @ \<lparr>p_loc = t_loc (plain_then_decorated ! idx between_pages), p_name = ''p'', p_path = Some ''x'',
              p_props = [], decorators = []\<rparr> # rest' \<and>
      length A = length (all_pages (nss between_pages)) \<and> length rest' = length rest) \<and>
   map page_state (all_pages (namespaces (after (build parsed))))
     = [(''a'', None, [], []), (''b'', None, [(''foo'', VNum 0)], []),
        (''c'', None, [(''bar'', VNum 1)], []), (''p'', Some ''x'', [], []),
        (''q'', None, [(''y'', VNum 2)], [])]"
proof -
  have i0: "idx between_pages = 0" by (simp add: between_pages_def)
  have h: "pstate between_pages = NamespaceBody" "nss between_pages \<noteq> []"
          "globDecs between_pages = []" "groupDecs between_pages = []" "decs between_pages = []"
    by (simp_all add: between_pages_def)
  have len: "idx between_pages + 4 < length plain_then_decorated" by code_simp
  have v: "t_val (plain_then_decorated ! idx between_pages) = ''['' @ ''p'' @ '']''"
          "t_val (plain_then_decorated ! (idx between_pages + 1)) = ''{''"
          "t_val (plain_then_decorated ! (idx between_pages + 2)) = ''@''"
          "t_val (plain_then_decorated ! (idx between_pages + 3)) = [CHR 0x22] @ ''x'' @ [CHR 0x22]"
          "t_val (plain_then_decorated ! (idx between_pages + 4)) = ''}''"
    by code_simp+
  have n: "namespaces parsed = nss (final (parse_loop None plain_then_decorated between_pages))"
    by (simp add: parsed_def use_def marking_def)
  have r: "map page_state (all_pages (namespaces (after (build parsed))))
     = [(''a'', None, [], []), (''b'', None, [(''foo'', VNum 0)], []),
        (''c'', None, [(''bar'', VNum 1)], []), (''p'', Some ''x'', [], []),
        (''q'', None, [(''y'', VNum 2)], [])]"
    by code_simp
  from plain_page_resolves [OF h len v n] r show ?thesis by blast
qed

section \<open>Unknown names\<close>

text \<open>A page that returns from its resolution has an empty list.\<close>

lemma resolve_page_resolved: "resolve_page this pn = Return (p', n') \<Longrightarrow> decorators p' = []"
  by (auto simp: resolve_page_def split: outcome.splits sum.splits prod.splits)

lemma build_pages_resolved:
  "build_pages this ps n = Return (ps', n') \<Longrightarrow> \<forall>x\<in>set ps'. decorators x = []"
proof (induction ps arbitrary: n ps' n')
  case Nil
  then show ?case by simp
next
  case (Cons p ps)
  from Cons.prems obtain p1 n1 ps1 where
    1: "resolve_page this (p, n) = Return (p1, n1)" and
    2: "build_pages this ps n1 = Return (ps1, n')" and 3: "ps' = p1 # ps1"
    by (auto split: outcome.splits prod.splits)
  from resolve_page_resolved[OF 1] Cons.IH[OF 2] 3 show ?case by simp
qed

lemma build_namespaces_resolved:
  "build_namespaces this ns n = Return (ns', n') \<Longrightarrow> \<forall>x\<in>set ns'. \<forall>y\<in>set (pages x). decorators y = []"
proof (induction ns arbitrary: n ns' n')
  case Nil
  then show ?case by simp
next
  case (Cons a ns)
  from Cons.prems obtain ps1 n1 ns1 where
    1: "build_pages this (pages a) n = Return (ps1, n1)" and
    2: "build_namespaces this ns n1 = Return (ns1, n')" and 3: "ns' = a\<lparr>pages := ps1\<rparr> # ns1"
    by (auto split: outcome.splits prod.splits)
  from build_pages_resolved[OF 1] Cons.IH[OF 2] 3 show ?case by simp
qed

text \<open>The first page that throws ends the loops: the pages after it are as they were.\<close>

lemma build_pages_abort:
  "build_pages this pre n = Return (pre', n1) \<Longrightarrow> resolve_page this (p, n1) = Throw e (p', n2) \<Longrightarrow>
   build_pages this (pre @ p # post) n = Throw e (pre' @ p' # post, n2)"
proof (induction pre arbitrary: n pre')
  case Nil
  then show ?case by simp
next
  case (Cons a pre)
  from Cons.prems(1) obtain a1 m ps1 where
    1: "resolve_page this (a, n) = Return (a1, m)" and
    2: "build_pages this pre m = Return (ps1, n1)" and 3: "pre' = a1 # ps1"
    by (auto split: outcome.splits prod.splits)
  from Cons.IH[OF 2 Cons.prems(2)] 1 3 show ?case by simp
qed

lemma build_namespaces_abort:
  "build_namespaces this nsA n = Return (nsA', n1) \<Longrightarrow>
   build_pages this (pages ns) n1 = Throw e (ps', n2) \<Longrightarrow>
   build_namespaces this (nsA @ ns # nsB) n = Throw e (nsA' @ ns\<lparr>pages := ps'\<rparr> # nsB, n2)"
proof (induction nsA arbitrary: n nsA')
  case Nil
  then show ?case by simp
next
  case (Cons a nsA)
  from Cons.prems(1) obtain ps1 m ns1 where
    1: "build_pages this (pages a) n = Return (ps1, m)" and
    2: "build_namespaces this nsA m = Return (ns1, n1)" and 3: "nsA' = a\<lparr>pages := ps1\<rparr> # ns1"
    by (auto split: outcome.splits prod.splits)
  from Cons.IH[OF 2 Cons.prems(2)] 1 3 show ?case by simp
qed

lemma build_abort:
  assumes "namespaces this = nsA @ ns # nsB" and "pages ns = pre @ p # post"
      and "build_namespaces this nsA (next_ident this) = Return (nsA', n1)"
      and "build_pages this pre n1 = Return (pre', n2)"
      and "resolve_page this (p, n2) = Throw e (p', n')"
  shows "build this =
           Throw e (this\<lparr>namespaces := nsA' @ ns\<lparr>pages := pre' @ p' # post\<rparr> # nsB, next_ident := n'\<rparr>)"
proof -
  have "build_pages this (pages ns) n1 = Throw e (pre' @ p' # post, n')"
    unfolding assms(2) by (rule build_pages_abort[OF assms(4,5)])
  from build_namespaces_abort[OF assms(3) this, of nsB]
  show ?thesis by (simp add: build_def assms(1))
qed

text \<open>
  The lookups of the page that fails. A macro of the list as it was before the pass, or a
  decorator that is left after the cancellation pass, for whose name the lookup yields
  \<open>undefined\<close>, while the entries visited before it have implementations of their own: the
  resolution of the page throws what \<open>buildError\<close> returns for the location of that entry.
\<close>

definition own :: "(string \<rightharpoonup> 'a) \<Rightarrow> Dec \<Rightarrow> bool" where
  "own registry d = (case registry (d_name d) of None \<Rightarrow> False | Some impl \<Rightarrow> True)"

lemma own_lookup: "own registry d \<Longrightarrow> \<exists>impl. lookup registry (d_name d) = Own impl"
  by (auto simp: own_def lookup_def split: option.splits)

lemma expand_macros_unknown:
  "list_all (own macros) ms \<Longrightarrow> lookup macros (d_name m) = Absent \<Longrightarrow>
   \<exists>st. expand_macros macros (ms @ m # rest) pn
           = Throw (buildError (d_loc m) (''Unknown macro `'' @ d_name m @ ''`'')) st"
proof (induction ms arbitrary: pn)
  case Nil
  obtain page n where pn: "pn = (page, n)" by (cases pn)
  from Nil show ?case by (simp add: pn)
next
  case (Cons a ms)
  obtain page n where pn: "pn = (page, n)" by (cases pn)
  from Cons.prems(1) have "own macros a" and ms: "list_all (own macros) ms" by simp_all
  from own_lookup[OF this(1)] obtain impl where impl: "lookup macros (d_name a) = Own impl" ..
  from Cons.IH[OF ms Cons.prems(2)] impl show ?case by (simp add: pn Let_def)
qed

lemma invoke_unknown:
  "list_all (own impls) ds \<Longrightarrow> lookup impls (d_name d) = Absent \<Longrightarrow>
   \<exists>p'. invoke impls (ds @ d # rest) page
           = Throw (buildError (d_loc d) (''Unknown decorator `'' @ d_name d @ ''`'')) p'"
proof (induction ds arbitrary: page)
  case Nil
  then show ?case by simp
next
  case (Cons a ds)
  from Cons.prems(1) have "own impls a" and ds: "list_all (own impls) ds" by simp_all
  from own_lookup[OF this(1)] obtain impl where impl: "lookup impls (d_name a) = Own impl" ..
  from Cons.IH[OF ds Cons.prems(2)] impl show ?case by simp
qed

lemma resolve_page_unknown:
  assumes "(filter is_macro (decorators p) = ms @ d # rest \<and> list_all (own (macro_impls this)) ms \<and>
            lookup (macro_impls this) (d_name d) = Absent \<and>
            msg = ''Unknown macro `'' @ d_name d @ ''`'') \<or>
           (expand_macros (macro_impls this) (filter is_macro (decorators p)) (p, n) = Return (q, n') \<and>
            cancellation (decorators q) = Inr (ds @ d # rest) \<and>
            list_all (own (decorator_impls this)) ds \<and>
            lookup (decorator_impls this) (d_name d) = Absent \<and>
            msg = ''Unknown decorator `'' @ d_name d @ ''`'')"
  shows "\<exists>p' k. resolve_page this (p, n) = Throw (buildError (d_loc d) msg) (p', k)"
  using assms
proof (elim disjE conjE)
  assume "filter is_macro (decorators p) = ms @ d # rest"
     and "list_all (own (macro_impls this)) ms" and "lookup (macro_impls this) (d_name d) = Absent"
     and "msg = ''Unknown macro `'' @ d_name d @ ''`''"
  with expand_macros_unknown[of "macro_impls this" ms d rest "(p, n)"]
  show ?thesis by (auto simp: resolve_page_def)
next
  assume "expand_macros (macro_impls this) (filter is_macro (decorators p)) (p, n) = Return (q, n')"
     and "cancellation (decorators q) = Inr (ds @ d # rest)"
     and "list_all (own (decorator_impls this)) ds"
     and "lookup (decorator_impls this) (d_name d) = Absent"
     and "msg = ''Unknown decorator `'' @ d_name d @ ''`''"
  with invoke_unknown[of "decorator_impls this" ds d rest "q\<lparr>decorators := ds @ d # rest\<rparr>"]
  show ?thesis by (auto simp: resolve_page_def)
qed

text \<open>
  What \<open>buildError\<close> returns is not always the error with the location. With two spaces
  after the line of the unknown decorator \<open>%a\<close>, the column \<open>loc.col - trueline.length +
  line.length\<close> is \<open>0 - 11 + 9\<close>, and \<open>' '.repeat(col)\<close> throws a \<open>RangeError\<close> before the
  \<open>EvalError\<close> is made. The defect is that of \<open>parseError\<close>, which has the same formula.

  C8: \<open>build\<close> of the text \<^verbatim>\<open>(n){\<close>, line feed, \<^verbatim>\<open>%a [p]{}}\<close> and two spaces, on an object without
  a library. The page \<open>p\<close> refers to the decorator \<open>a\<close>, which the registry does not have;
  the call throws a \<open>RangeError\<close>, which carries no location, and not the error with the
  location of the declaration of \<open>a\<close>.
\<close>

theorem unknown_decorator_no_location:
  "thrown (run (''(n){'' @ [LF] @ ''%a [p]{}}  '') new_Pages) = Some RangeError"
  by code_simp

text \<open>
  Without the two spaces the error is the one with the location of the declaration.
\<close>

lemma unknown_decorator_location:
  "thrown (run (''(n){'' @ [LF] @ ''%a [p]{}}'') new_Pages)
     = Some (EvalError \<lparr>src = new_Source ''(input)'' (''(n){'' @ [LF] @ ''%a [p]{}}''),
                         col = 0, row = 1, len = 1\<rparr> ''Unknown decorator `a`'')"
  by code_simp

text \<open>
  A name that the registry inherits from \<open>Object.prototype\<close> is not unknown to the code:
  on an object without a library, \<open>%toString\<close> is looked up, found and called, and \<open>build\<close>
  returns; \<open>%valueOf\<close> is found and called, and the call throws a \<open>TypeError\<close>.
\<close>

lemma inherited_decorator_found:
  "summary (run ''(n){%toString [p]{}}'' new_Pages) = Some [(''n'', [(''p'', [])])]"
  by code_simp

lemma inherited_decorator_fails:
  "thrown (run ''(n){%valueOf [p]{}}'' new_Pages) = Some TypeError"
  by code_simp

lemma inherited_macro_fails:
  "thrown (run ''(n){%!constructor [p]{}}'' new_Pages) = Some TypeError"
  by code_simp

section \<open>Texts without a namespace\<close>

lemma crlf_spaces: "list_all is_space cs \<Longrightarrow> list_all is_space (crlf cs)"
  by (induction cs rule: crlf.induct) (auto simp: LF_def is_space_def)

lemma space_not_operator: "is_space c \<Longrightarrow> \<not> is_operator c"
  by (auto simp: is_space_def is_operator_def)

lemma scan_space:
  "is_space c \<Longrightarrow> buf s = [] \<Longrightarrow> tokens s = [] \<Longrightarrow>
   buf (scan source s c) = [] \<and> tokens (scan source s c) = []"
  by (simp add: scan_def Let_def startsWith_def pushtoken_def space_not_operator)

lemma scan_spaces:
  "list_all is_space cs \<Longrightarrow> buf s = [] \<Longrightarrow> tokens s = [] \<Longrightarrow>
   buf (foldl (scan source) s cs) = [] \<and> tokens (foldl (scan source) s cs) = []"
proof (induction cs arbitrary: s)
  case Nil
  then show ?case by simp
next
  case (Cons c cs)
  from Cons.prems have "is_space c" "list_all is_space cs" by simp_all
  with scan_space[OF \<open>is_space c\<close> Cons.prems(2,3), of source] Cons.IH[of "scan source s c"]
  show ?case by simp
qed

lemma tokenize_spaces:
  assumes "list_all is_space (body source)"
  shows "\<exists>c r. tokenize source = [new_EOF c r source]"
proof -
  let ?s = "foldl (scan source) \<lparr>tokens = [], buf = [], cur_col = 0, cur_row = 0\<rparr> (body source)"
  have "buf ?s = [] \<and> tokens ?s = []"
    by (rule scan_spaces[OF assms]) simp_all
  then show ?thesis by (auto simp: tokenize_def Let_def pushtoken_def)
qed

lemma parse_only_EOF: "parse props [new_EOF c r source] this = Return this"
  unfolding parse_def
  by (subst parse_loop.simps)
     (simp add: step_def top_step_def new_EOF_def new_Token_def isNamespace_def startsWith_def)

text \<open>A text of white space only adds nothing.\<close>

lemma add_white_space:
  "list_all is_space content \<Longrightarrow> add (new_Source name content) props this = Return this"
  using tokenize_spaces[of "new_Source name content"] crlf_spaces[of content]
  by (auto simp: add_def new_Source_def parse_only_EOF)

text \<open>
  A first token that is neither a namespace header nor the end of the input is reported
  through \<open>parseError\<close> with its own location.
\<close>

lemma parse_no_namespace:
  "\<not> isNamespace tk \<Longrightarrow> \<not> eof tk \<Longrightarrow>
   parse props (tk # toks) this =
     Throw (parseError (t_loc tk) ''Expected a namespace declaration''
              (if isIdentifier tk then ''Maybe you meant `('' @ t_val tk @ '')`?'' else [])) this"
  unfolding parse_def
  by (subst parse_loop.simps) (simp add: step_def top_step_def)

text \<open>
  C9: the text \<open>a\<close> followed by one space has no namespace declaration and is not white
  space only, and \<open>add\<close> does not raise a syntax error: \<open>parseError\<close> takes the
  trailing space of the line off the column, \<open>' '.repeat(-1)\<close> throws a \<open>RangeError\<close>.
\<close>

theorem trailing_space_no_syntax_error:
  "thrown (add (new_Source ''(input)'' ''a '') None new_Pages) = Some RangeError"
  by code_simp

text \<open>
  The text \<open>ab\<close> gets its syntax error; the location is that of the first token, whose
  column is 1 (the flush at the end of the input comes after \<open>col\<close> has moved on).
\<close>

lemma end_of_input_column:
  "thrown (add (new_Source ''(input)'' ''ab'') None new_Pages) =
     Some (SyntaxError \<lparr>src = \<lparr>s_name = ''(input)'', body = ''ab''\<rparr>, col = 1, row = 0, len = 2\<rparr>
             ''Expected a namespace declaration'' ''Maybe you meant `(ab)`?'')"
  by code_simp

section \<open>A parameter called \<open>__not\<close>\<close>

lemma isIdentifier_not_marker:
  "isIdentifier tk \<Longrightarrow> t_val tk \<noteq> ''%'' \<and> t_val tk \<noteq> ''!'' \<and> t_val tk \<noteq> ''>'' \<and> t_val tk \<noteq> ''<''"
  by (auto simp: isIdentifier_def)







lemma get_prop_set_prop:
  "get_prop (set_prop k x ps) key = (if k = key \<and> k \<noteq> ''__proto__'' then x else get_prop ps key)"
  by (simp add: get_prop_def set_prop_def update_conv')

lemma params_sets:
  "params toks k dec = Inr (j, d) \<Longrightarrow> get_prop (d_props d) key \<noteq> get_prop (d_props dec) key \<Longrightarrow>
   \<exists>m a eq v. k \<le> m \<and> tok toks m = Inr a \<and> isIdentifier a \<and> t_val a = key \<and>
              tok toks (m + 1) = Inr eq \<and> t_val eq = ''='' \<and>
              tok toks (m + 2) = Inr v \<and> resolveValue v = Inr (get_prop (d_props d) key)"
proof (induction toks k dec arbitrary: j d rule: params.induct)
  case (1 toks k dec)
  show ?case
  proof (cases "tok toks k")
    case (Inl e)
    with "1.prems" show ?thesis by (subst (asm) params.simps) simp
  next
    case (Inr a)
    show ?thesis
    proof (cases "t_val a = ''>''")
      case True
      with Inr "1.prems" show ?thesis by (subst (asm) params.simps) simp
    next
      case False
      note nogt = this
      show ?thesis
      proof (cases "isIdentifier a")
        case True
        from "1.prems"(1) Inr nogt True obtain eq v x where
          eq: "tok toks (k + 1) = Inr eq" "\<not> t_val eq \<noteq> ''=''" and
          v: "tok toks (k + 2) = Inr v" "resolveValue v = Inr x" and
          rec: "params toks (k + 3) (dec\<lparr>d_props := set_prop (t_val a) x (d_props dec)\<rparr>) = Inr (j, d)"
          by (subst (asm) params.simps) (auto split: sum.splits if_splits)
        let ?dec = "dec\<lparr>d_props := set_prop (t_val a) x (d_props dec)\<rparr>"
        show ?thesis
        proof (cases "get_prop (d_props d) key = get_prop (d_props ?dec) key")
          case False
          from "1.IH"(1)[OF Inr nogt True eq v rec False] obtain m a' eq' v' where
            "k + 3 \<le> m" "tok toks m = Inr a'" "isIdentifier a'" "t_val a' = key"
            "tok toks (m + 1) = Inr eq'" "t_val eq' = ''=''"
            "tok toks (m + 2) = Inr v'" "resolveValue v' = Inr (get_prop (d_props d) key)"
            by blast
          then show ?thesis by (intro exI[of _ m] exI[of _ a'] exI[of _ eq'] exI[of _ v']) simp
        next
          case same: True
          with "1.prems"(2) have "get_prop (set_prop (t_val a) x (d_props dec)) key \<noteq> get_prop (d_props dec) key"
            by simp
          then have "t_val a = key" "get_prop (set_prop (t_val a) x (d_props dec)) key = x"
            by (auto simp: get_prop_set_prop split: if_splits)
          with same have "get_prop (d_props d) key = x" by simp
          with Inr True eq v \<open>t_val a = key\<close> show ?thesis
            by (intro exI[of _ k] exI[of _ a] exI[of _ eq] exI[of _ v]) simp
        qed
      next
        case False
        from "1.prems"(1) Inr nogt False obtain x where
          v: "resolveValue a = Inr x" and
          rec: "params toks (k + 1) (dec\<lparr>d_args := d_args dec @ [x]\<rparr>) = Inr (j, d)"
          by (subst (asm) params.simps) (auto split: sum.splits if_splits)
        from "1.prems"(2) have "get_prop (d_props d) key \<noteq> get_prop (d_props (dec\<lparr>d_args := d_args dec @ [x]\<rparr>)) key"
          by simp
        from "1.IH"(2)[OF Inr nogt False v rec this] obtain m a' eq' v' where
          "k + 1 \<le> m" "tok toks m = Inr a'" "isIdentifier a'" "t_val a' = key"
          "tok toks (m + 1) = Inr eq'" "t_val eq' = ''=''"
          "tok toks (m + 2) = Inr v'" "resolveValue v' = Inr (get_prop (d_props d) key)"
          by blast
        then show ?thesis by (intro exI[of _ m] exI[of _ a'] exI[of _ eq'] exI[of _ v']) simp
      qed
    qed
  qed
qed

text \<open>
  A named parameter \<open>__not\<close> that the parameter loop reads, and that is the last of this
  name in the list, is the property \<open>__not\<close> of the object: the parameters are stored in
  the object that holds the flags.
\<close>

lemma params_named:
  assumes "tok toks k = Inr key" and "isIdentifier key"
      and "tok toks (k + 1) = Inr eq" and "t_val eq = ''=''"
      and "tok toks (k + 2) = Inr v" and "resolveValue v = Inr x"
  shows "params toks k dec =
           params toks (k + 3) (dec\<lparr>d_props := set_prop (t_val key) x (d_props dec)\<rparr>)"
  using assms isIdentifier_not_marker[OF assms(2)] by (subst params.simps) simp

lemma not_parameter_property:
  assumes "tok toks k = Inr key" and "t_val key = ''__not''"
      and "tok toks (k + 1) = Inr eq" and "t_val eq = ''=''"
      and "tok toks (k + 2) = Inr v" and "resolveValue v = Inr x"
      and "params toks k dec = Inr (j, d)"
      and "\<forall>m a. k + 3 \<le> m \<longrightarrow> tok toks m = Inr a \<longrightarrow> t_val a \<noteq> ''__not''"
  shows "get_prop (d_props d) ''__not'' = x"
proof -
  let ?dec = "dec\<lparr>d_props := set_prop ''__not'' x (d_props dec)\<rparr>"
  have key: "isIdentifier key"
    using assms(2) by (simp add: isIdentifier_def identifier_char_def)
  have p: "params toks (k + 3) ?dec = Inr (j, d)"
    using params_named[OF assms(1) key assms(3-6), of dec] assms(2,7) by simp
  have x: "get_prop (d_props ?dec) ''__not'' = x" by (simp add: get_prop_set_prop)
  show ?thesis
  proof (rule ccontr)
    assume "get_prop (d_props d) ''__not'' \<noteq> x"
    with x have "get_prop (d_props d) ''__not'' \<noteq> get_prop (d_props ?dec) ''__not''" by simp
    from params_sets[OF p this] obtain m a where "k + 3 \<le> m" "tok toks m = Inr a" "t_val a = ''__not''"
      by blast
    with assms(8) show False by blast
  qed
qed







end
